theory Spec2Isabelle
  imports Main
begin

section \<open>JavaScript strings and regular expressions\<close>

text \<open>
  A JavaScript string is a sequence of UTF-16 code units; \<open>length\<close>, \<open>trim\<close> and the
  regular expressions of the scripts (none carries the \<open>u\<close> flag) all work on code
  units. A code unit is modelled as a natural number. \<open>str\<close> turns an ASCII literal into
  such a string.
\<close>

type_synonym jsstring = "nat list"

definition str :: "string \<Rightarrow> jsstring" where
  "str = map of_char"

text \<open>
  The character classes of ECMAScript: \<open>\s\<close> (white space and line terminators, the same
  set that \<open>trim\<close> strips), \<open>\d\<close>, \<open>\w\<close>, and the line terminators that \<open>.\<close> excludes.
\<close>

definition is_space :: "nat \<Rightarrow> bool" where
  "is_space c =
     (c \<in> set [9, 10, 11, 12, 13, 32, 160, 5760, 8232, 8233, 8239, 8287, 12288, 65279]
      \<or> (8192 \<le> c \<and> c \<le> 8202))"

definition is_digit :: "nat \<Rightarrow> bool" where
  "is_digit c = (48 \<le> c \<and> c \<le> 57)"

definition is_word :: "nat \<Rightarrow> bool" where
  "is_word c = ((97 \<le> c \<and> c \<le> 122) \<or> (65 \<le> c \<and> c \<le> 90) \<or> is_digit c \<or> c = 95)"

definition is_line_terminator :: "nat \<Rightarrow> bool" where
  "is_line_terminator c = (c = 10 \<or> c = 13 \<or> c = 8232 \<or> c = 8233)"

text \<open>
  Under the \<open>i\<close> flag (without \<open>u\<close>) two code units match when their canonical forms
  (\<open>toUpperCase\<close>, never mapping a non-ASCII unit to an ASCII one) agree. The patterns of
  the scripts name ASCII characters only, so it is enough to swap the case of ASCII
  letters.
\<close>

definition swapcase :: "nat \<Rightarrow> nat" where
  "swapcase c =
     (if 65 \<le> c \<and> c \<le> 90 then c + 32 else if 97 \<le> c \<and> c \<le> 122 then c - 32 else c)"

text \<open>
  A class item is a character \<open>C\<close>, a range \<open>R\<close>, or one of \<open>\s\<close>, \<open>\S\<close>, \<open>\w\<close>, \<open>\d\<close>;
  a class is a bracket expression, a negated one, or the dot.
\<close>

datatype item = C nat | R nat nat | S | NS | W | D

datatype cls = In "item list" | NotIn "item list" | Dot

fun item_mem :: "item \<Rightarrow> nat \<Rightarrow> bool" where
  "item_mem (C c) x = (x = c)"
| "item_mem (R lo hi) x = (lo \<le> x \<and> x \<le> hi)"
| "item_mem S x = is_space x"
| "item_mem NS x = (\<not> is_space x)"
| "item_mem W x = is_word x"
| "item_mem D x = is_digit x"

definition item_match :: "bool \<Rightarrow> item \<Rightarrow> nat \<Rightarrow> bool" where
  "item_match ic it x = (item_mem it x \<or> (ic \<and> item_mem it (swapcase x)))"

fun cls_match :: "bool \<Rightarrow> cls \<Rightarrow> nat \<Rightarrow> bool" where
  "cls_match ic (In its) x = list_ex (\<lambda>it. item_match ic it x) its"
| "cls_match ic (NotIn its) x = (\<not> list_ex (\<lambda>it. item_match ic it x) its)"
| "cls_match ic Dot x = (\<not> is_line_terminator x)"

text \<open>
  The patterns of the scripts are sequences of: one character of a class; a class under
  a quantifier \<open>Rep c min max greedy\<close> (\<open>*\<close> is \<open>Rep c 0 None True\<close>, \<open>*?\<close> is
  \<open>Rep c 0 None False\<close>, \<open>+\<close> is \<open>Rep c 1 None True\<close>, \<open>{1,3}\<close> is
  \<open>Rep c 1 (Some 3) True\<close>); the assertions \<open>^\<close> and \<open>$\<close> (no \<open>m\<close> flag); the border of
  a capture group (\<open>Mark\<close>); and the lookaheads \<open>(?=...)\<close> and \<open>(?!...)\<close>.
\<close>

datatype atom = One cls | Rep cls nat "nat option" bool | Bos | Eos | Mark
  | Ahead "atom list" | NotAhead "atom list"

record regex =
  ignoreCase :: bool
  alts :: "atom list list"

fun dec :: "nat option \<Rightarrow> nat option" where
  "dec None = None"
| "dec (Some n) = Some (n - 1)"

text \<open>
  The backtracking matcher of ECMAScript, at one position. \<open>m ic p b s\<close> matches the
  sequence \<open>p\<close> against the rest \<open>s\<close> of the input, \<open>b\<close> telling whether \<open>s\<close> is the whole
  input; it returns the first success in the order the specification tries them: the
  rests of the input at the group borders, and the rest after the match.
\<close>

fun m :: "bool \<Rightarrow> atom list \<Rightarrow> bool \<Rightarrow> jsstring \<Rightarrow> (jsstring list \<times> jsstring) option" where
  "m ic [] b s = Some ([], s)"
| "m ic (One c # r) b [] = None"
| "m ic (One c # r) b (x # xs) = (if cls_match ic c x then m ic r False xs else None)"
| "m ic (Rep c mn mx g # r) b [] = (if mx = Some 0 \<or> mn = 0 then m ic r b [] else None)"
| "m ic (Rep c mn mx g # r) b (x # xs) =
     (if mx = Some 0 then m ic r b (x # xs)
      else if 0 < mn then
        (if cls_match ic c x then m ic (Rep c (mn - 1) (dec mx) g # r) False xs else None)
      else if g then
        (if cls_match ic c x then
           (case m ic (Rep c 0 (dec mx) g # r) False xs of
              Some res \<Rightarrow> Some res
            | None \<Rightarrow> m ic r b (x # xs))
         else m ic r b (x # xs))
      else
        (case m ic r b (x # xs) of
           Some res \<Rightarrow> Some res
         | None \<Rightarrow>
             if cls_match ic c x then m ic (Rep c 0 (dec mx) g # r) False xs else None))"
| "m ic (Bos # r) b s = (if b then m ic r b s else None)"
| "m ic (Eos # r) b s = (if s = [] then m ic r b s else None)"
| "m ic (Mark # r) b s = map_option (\<lambda>(ms, e). (s # ms, e)) (m ic r b s)"
| "m ic (Ahead p # r) b s = (case m ic p b s of None \<Rightarrow> None | Some _ \<Rightarrow> m ic r b s)"
| "m ic (NotAhead p # r) b s = (case m ic p b s of None \<Rightarrow> m ic r b s | Some _ \<Rightarrow> None)"

fun first_alt ::
  "bool \<Rightarrow> atom list list \<Rightarrow> bool \<Rightarrow> jsstring \<Rightarrow> (jsstring list \<times> jsstring) option" where
  "first_alt ic [] b s = None"
| "first_alt ic (a # as) b s =
     (case m ic a b s of Some res \<Rightarrow> Some res | None \<Rightarrow> first_alt ic as b s)"

definition match_here :: "regex \<Rightarrow> bool \<Rightarrow> jsstring \<Rightarrow> (jsstring list \<times> jsstring) option" where
  "match_here re b s = first_alt (ignoreCase re) (alts re) b s"

text \<open>
  \<open>RegExpBuiltinExec\<close> without the \<open>g\<close> and \<open>y\<close> flags: the first position, from the
  left, at which the pattern matches. The result is the input from that position on,
  the group borders and the rest after the match.
\<close>

fun regexp_exec ::
  "regex \<Rightarrow> bool \<Rightarrow> jsstring \<Rightarrow> (jsstring \<times> jsstring list \<times> jsstring) option" where
  "regexp_exec re b [] =
     (case match_here re b [] of None \<Rightarrow> None | Some (ms, e) \<Rightarrow> Some ([], ms, e))"
| "regexp_exec re b (x # xs) =
     (case match_here re b (x # xs) of
        None \<Rightarrow> regexp_exec re False xs
      | Some (ms, e) \<Rightarrow> Some (x # xs, ms, e))"

definition test :: "regex \<Rightarrow> jsstring \<Rightarrow> bool" where
  "test re s = (regexp_exec re True s \<noteq> None)"

text \<open>
  The loop that \<open>String.prototype.match\<close> and \<open>String.prototype.replace\<close> run for a
  pattern with the \<open>g\<close> flag: \<open>lastIndex\<close> starts at 0; every match found from
  \<open>lastIndex\<close> on is recorded and \<open>lastIndex\<close> moves to its end, or one further when the
  match is empty. \<open>gscan re rep b k s\<close> walks the input once: \<open>k\<close> counts the characters
  of the current match still to be skipped. It returns the matched texts, and the input
  with every match replaced by \<open>rep\<close>.
\<close>

fun gscan :: "regex \<Rightarrow> jsstring \<Rightarrow> bool \<Rightarrow> nat \<Rightarrow> jsstring \<Rightarrow> jsstring list \<times> jsstring" where
  "gscan re rep b (Suc k) (x # xs) = gscan re rep False k xs"
| "gscan re rep b (Suc k) [] = ([], [])"
| "gscan re rep b 0 [] =
     (case match_here re b [] of None \<Rightarrow> ([], []) | Some (ms, e) \<Rightarrow> ([[]], rep))"
| "gscan re rep b 0 (x # xs) =
     (case match_here re b (x # xs) of
        None \<Rightarrow> (let (found, out) = gscan re rep False 0 xs in (found, x # out))
      | Some (ms, e) \<Rightarrow>
          (let n = length (x # xs) - length e in
           if n = 0 then
             (let (found, out) = gscan re rep False 0 xs in ([] # found, rep @ x # out))
           else
             (let (found, out) = gscan re rep False (n - 1) xs
              in (take n (x # xs) # found, rep @ out))))"

definition match_global :: "regex \<Rightarrow> jsstring \<Rightarrow> jsstring list" where
  "match_global re s = fst (gscan re [] True 0 s)"

definition replace_global :: "regex \<Rightarrow> jsstring \<Rightarrow> jsstring \<Rightarrow> jsstring" where
  "replace_global re rep s = snd (gscan re rep True 0 s)"

text \<open>Pieces from which the pattern literals of the scripts are written.\<close>

definition lit :: "string \<Rightarrow> atom list" where
  "lit cs = map (\<lambda>c. One (In [C (of_char c)])) cs"

definition ws_star :: atom where
  "ws_star = Rep (In [S]) 0 None True"

definition any_lazy :: atom where
  "any_lazy = Rep (In [S, NS]) 0 None False"

definition not_gt_star :: atom where
  "not_gt_star = Rep (NotIn [C 62]) 0 None True"

section \<open>The cleanup scripts\<close>

text \<open>
  The two cleanup scripts differ in their table only: the second has three rules more.
  Every pattern carries the \<open>g\<close> flag and is used through \<open>match\<close> and \<open>replace\<close>.
\<close>

definition social_share :: regex where
  \<open>social_share = \<lparr>ignoreCase = False, alts = [
     lit ''<section class="main-color container-wrap social-share-wrap">''
     @ [any_lazy] @ lit ''</section>'' @ [ws_star, Ahead [One (In [C 10])]]]\<rparr>\<close>

definition related_articles :: regex where
  \<open>related_articles = \<lparr>ignoreCase = False, alts = [
     lit ''<section class="container-wrap">'' @ [ws_star]
     @ lit ''<div class="container">'' @ [ws_star]
     @ lit ''<div class="related-wrap">''
     @ [any_lazy] @ lit ''</section>'' @ [ws_star, Ahead [One (In [C 10])]]]\<rparr>\<close>

definition pagination :: regex where
  \<open>pagination = \<lparr>ignoreCase = False, alts = [
     [ws_star] @ lit ''<nav class="pagination-sticky''
     @ [any_lazy] @ lit ''</nav><!-- .navigation -->'' @ [ws_star]]\<rparr>\<close>

definition comments :: regex where
  "comments = \<lparr>ignoreCase = False, alts = [
     [ws_star] @ lit ''<!-- Begin Comments -->''
     @ [any_lazy] @ lit ''<!-- End Comments -->'' @ [ws_star]]\<rparr>"

definition article_meta :: regex where
  \<open>article_meta = \<lparr>ignoreCase = False, alts = [
     [ws_star] @ lit ''<div class="article-meta">''
     @ [any_lazy] @ lit ''</div><!--end article-meta-->'' @ [ws_star]]\<rparr>\<close>

definition pricing_styles :: regex where
  "pricing_styles = \<lparr>ignoreCase = False, alts = [
     lit ''<style'' @ [not_gt_star] @ lit ''>#go-pricing-table''
     @ [any_lazy] @ lit ''</style>'']\<rparr>"

definition pricing_html :: regex where
  \<open>pricing_html = \<lparr>ignoreCase = False, alts = [
     lit ''<div id="go-pricing-table-'' @ [Rep (In [D]) 1 None True]
     @ lit ''" class="go-pricing"''
     @ [any_lazy] @ lit ''</div></div></div></div></div>'']\<rparr>\<close>

text \<open>\<open>REMOVAL_PATTERNS\<close> of the first script (four rules) and of the second (seven).\<close>

definition REMOVAL_PATTERNS_4 :: "(string \<times> regex) list" where
  "REMOVAL_PATTERNS_4 =
     [(''Social Share Section'', social_share),
      (''Related Articles Carousel'', related_articles),
      (''Pagination Navigation'', pagination),
      (''Comments Section'', comments)]"

definition REMOVAL_PATTERNS :: "(string \<times> regex) list" where
  "REMOVAL_PATTERNS =
     REMOVAL_PATTERNS_4 @
     [(''Article Meta Section'', article_meta),
      (''Go Pricing Table Styles'', pricing_styles),
      (''Go Pricing Table HTML'', pricing_html)]"

text \<open>
  The statistics are a global object of each script. \<open>removalsByType\<close> is an object
  used as a dictionary: an association list in insertion order. \<open>bump k n\<close> is
  \<open>obj[k] = (obj[k] || 0) + n\<close>. Counts are JavaScript numbers; they are modelled as
  naturals (exact below \<open>2^53\<close>).
\<close>

record scan_stats =
  filesScanned :: nat

record cleanup_stats = scan_stats +
  filesModified :: nat
  removalsByType :: "(string \<times> nat) list"

fun bump :: "'k \<Rightarrow> nat \<Rightarrow> ('k \<times> nat) list \<Rightarrow> ('k \<times> nat) list" where
  "bump k n [] = [(k, n)]"
| "bump k n ((k', v) # r) = (if k' = k then (k', v + n) # r else (k', v) # bump k n r)"

definition initial_cleanup_stats :: cleanup_stats where
  "initial_cleanup_stats = \<lparr>filesScanned = 0, filesModified = 0, removalsByType = []\<rparr>"

text \<open>
  \<open>cleanupContent\<close>: the loop over the table, on the state \<open>(modified, totalRemovals,
  stats.removalsByType)\<close>.
\<close>

fun cleanup_rules ::
  "(string \<times> regex) list \<Rightarrow> jsstring \<times> nat \<times> (string \<times> nat) list
     \<Rightarrow> jsstring \<times> nat \<times> (string \<times> nat) list" where
  "cleanup_rules [] acc = acc"
| "cleanup_rules ((name, pattern) # rest) (modified, totalRemovals, byType) =
     (let count = length (match_global pattern modified) in
      if count > 0 then
        cleanup_rules rest
          (replace_global pattern [] modified, totalRemovals + count, bump name count byType)
      else cleanup_rules rest (modified, totalRemovals, byType))"

definition cleanupContent_with ::
  "(string \<times> regex) list \<Rightarrow> jsstring \<Rightarrow> cleanup_stats \<Rightarrow> (jsstring \<times> nat) \<times> cleanup_stats" where
  "cleanupContent_with table content st =
     (case cleanup_rules table (content, 0, removalsByType st) of
        (modified, totalRemovals, byType) \<Rightarrow>
          ((modified, totalRemovals), st\<lparr>removalsByType := byType\<rparr>))"

definition cleanupContent :: "jsstring \<Rightarrow> cleanup_stats \<Rightarrow> (jsstring \<times> nat) \<times> cleanup_stats" where
  "cleanupContent = cleanupContent_with REMOVAL_PATTERNS"

definition cleanupContent_4 :: "jsstring \<Rightarrow> cleanup_stats \<Rightarrow> (jsstring \<times> nat) \<times> cleanup_stats" where
  "cleanupContent_4 = cleanupContent_with REMOVAL_PATTERNS_4"

text \<open>
  The file system: the text of every readable file, and which paths can be written.
  \<open>readFileSync\<close> and \<open>writeFileSync\<close> throw on failure.
\<close>

record filesystem =
  contents :: "string \<rightharpoonup> jsstring"
  writable :: "string \<Rightarrow> bool"

datatype exn = IOError string | TypeError

definition readFileSync :: "filesystem \<Rightarrow> string \<Rightarrow> exn + jsstring" where
  "readFileSync fs p = (case contents fs p of None \<Rightarrow> Inl (IOError p) | Some c \<Rightarrow> Inr c)"

definition writeFileSync :: "filesystem \<Rightarrow> string \<Rightarrow> jsstring \<Rightarrow> exn + filesystem" where
  "writeFileSync fs p d =
     (if writable fs p then Inr (fs\<lparr>contents := (contents fs)(p \<mapsto> d)\<rparr>) else Inl (IOError p))"

text \<open>
  What a run changes: the file system, the global statistics and the console (of which
  the line printed for a cleaned file and the line printed for a caught error are
  kept). An exception leaves all three as they are when it is thrown, so a function
  that may throw returns the state together with the exception, if any.
\<close>

datatype line = Removed string nat | ErrorProcessing string exn

record cleanup_state =
  fsys :: filesystem
  stats :: cleanup_stats
  console :: "line list"

definition processFile_with ::
  "(string \<times> regex) list \<Rightarrow> string \<Rightarrow> bool \<Rightarrow> cleanup_state \<Rightarrow> cleanup_state \<times> exn option" where
  "processFile_with table filePath dryRun st =
     (let st1 = st\<lparr>stats := (stats st)\<lparr>filesScanned := filesScanned (stats st) + 1\<rparr>\<rparr> in
      case readFileSync (fsys st1) filePath of
        Inl e \<Rightarrow> (st1, Some e)
      | Inr content \<Rightarrow>
          (case cleanupContent_with table content (stats st1) of
             ((modified, totalRemovals), stats2) \<Rightarrow>
               if totalRemovals > 0 then
                 (let st3 = st1\<lparr>stats := stats2\<lparr>filesModified := filesModified stats2 + 1\<rparr>,
                                 console := console st1 @ [Removed filePath totalRemovals]\<rparr> in
                  if \<not> dryRun then
                    (case writeFileSync (fsys st3) filePath modified of
                       Inl e \<Rightarrow> (st3, Some e)
                     | Inr fs' \<Rightarrow> (st3\<lparr>fsys := fs'\<rparr>, None))
                  else (st3, None))
               else (st1\<lparr>stats := stats2\<rparr>, None)))"

text \<open>The loop of \<open>main\<close> over the enumerated files, with its \<open>try\<close>/\<open>catch\<close>.\<close>

fun main_loop_with ::
  "(string \<times> regex) list \<Rightarrow> bool \<Rightarrow> string list \<Rightarrow> cleanup_state \<Rightarrow> cleanup_state" where
  "main_loop_with table dryRun [] st = st"
| "main_loop_with table dryRun (file # files) st =
     (case processFile_with table file dryRun st of
        (st', None) \<Rightarrow> main_loop_with table dryRun files st'
      | (st', Some e) \<Rightarrow>
          main_loop_with table dryRun files
            (st'\<lparr>console := console st' @ [ErrorProcessing file e]\<rparr>))"

definition processFile :: "string \<Rightarrow> bool \<Rightarrow> cleanup_state \<Rightarrow> cleanup_state \<times> exn option" where
  "processFile = processFile_with REMOVAL_PATTERNS"

definition processFile_4 :: "string \<Rightarrow> bool \<Rightarrow> cleanup_state \<Rightarrow> cleanup_state \<times> exn option" where
  "processFile_4 = processFile_with REMOVAL_PATTERNS_4"

definition main_loop :: "bool \<Rightarrow> string list \<Rightarrow> cleanup_state \<Rightarrow> cleanup_state" where
  "main_loop = main_loop_with REMOVAL_PATTERNS"

definition main_loop_4 :: "bool \<Rightarrow> string list \<Rightarrow> cleanup_state \<Rightarrow> cleanup_state" where
  "main_loop_4 = main_loop_with REMOVAL_PATTERNS_4"

section \<open>The audit script\<close>

subsection \<open>Strings\<close>

text \<open>
  \<open>trim\<close>, \<open>endsWith\<close>, \<open>split\<close> on a one-character separator, \<open>join\<close>, and the decimal
  text of a count (as a template literal prints it).
\<close>

definition trim :: "jsstring \<Rightarrow> jsstring" where
  "trim s = rev (dropWhile is_space (rev (dropWhile is_space s)))"

definition endsWith :: "jsstring \<Rightarrow> jsstring \<Rightarrow> bool" where
  "endsWith s t = (length t \<le> length s \<and> drop (length s - length t) s = t)"

fun split_on :: "nat \<Rightarrow> jsstring \<Rightarrow> jsstring list" where
  "split_on c [] = [[]]"
| "split_on c (x # xs) =
     (if x = c then [] # split_on c xs
      else (let r = split_on c xs in (x # hd r) # tl r))"

fun join :: "jsstring \<Rightarrow> jsstring list \<Rightarrow> jsstring" where
  "join sep [] = []"
| "join sep [x] = x"
| "join sep (x # y # r) = x @ sep @ join sep (y # r)"

fun digits :: "nat \<Rightarrow> jsstring" where
  "digits n = (if n < 10 then [48 + n] else digits (n div 10) @ [48 + n mod 10])"

text \<open>
  \<open>String.prototype.match\<close> for a pattern without the \<open>g\<close> flag: the matched text and
  the captured groups, each group lying between two borders.
\<close>

fun groups :: "jsstring list \<Rightarrow> jsstring list" where
  "groups (a # b # r) = take (length a - length b) a # groups r"
| "groups _ = []"

definition match_first :: "regex \<Rightarrow> jsstring \<Rightarrow> (jsstring \<times> jsstring list) option" where
  "match_first re s =
     (case regexp_exec re True s of
        None \<Rightarrow> None
      | Some (s0, ms, e) \<Rightarrow> Some (take (length s0 - length e) s0, groups ms))"

subsection \<open>\<open>parseFrontmatter\<close>\<close>

text \<open>
  The front matter is an object used as a dictionary with string values: a map. A
  property that is absent reads as \<open>undefined\<close>; \<open>undefined\<close> and the empty string are
  the falsy values that occur. An assignment to the key \<open>__proto__\<close> with a string value
  changes nothing (the inherited setter ignores a value that is not an object).
\<close>

type_synonym frontmatter = "jsstring \<rightharpoonup> jsstring"

definition falsy :: "jsstring option \<Rightarrow> bool" where
  "falsy v = (v = None \<or> v = Some [])"

definition set_prop :: "frontmatter \<Rightarrow> jsstring \<Rightarrow> jsstring \<Rightarrow> frontmatter" where
  "set_prop fm k v = (if k = str ''__proto__'' then fm else fm(k \<mapsto> v))"

definition crlf_re :: regex where
  "crlf_re = \<lparr>ignoreCase = False, alts = [[One (In [C 13]), One (In [C 10])]]\<rparr>"

definition header_re :: regex where
  "header_re = \<lparr>ignoreCase = False, alts = [
     [Bos] @ lit ''---\<newline>'' @ [Mark, any_lazy, Mark] @ lit ''\<newline>---'']\<rparr>"

definition quoted_re :: regex where
  "quoted_re = \<lparr>ignoreCase = False, alts = [
     [Bos, Mark, Rep (In [W]) 1 None True, Mark, One (In [C 58]), ws_star,
      One (In [C 34, C 39]), Mark, Rep Dot 0 None True, Mark, One (In [C 34, C 39]),
      ws_star, Eos]]\<rparr>"

definition bare_re :: regex where
  "bare_re = \<lparr>ignoreCase = False, alts = [
     [Bos, Mark, Rep (In [W]) 1 None True, Mark, One (In [C 58]), ws_star,
      Mark, Rep Dot 1 None False, Mark, ws_star, Eos]]\<rparr>"

definition normalizedContent :: "jsstring \<Rightarrow> jsstring" where
  "normalizedContent content = replace_global crlf_re [10] content"

text \<open>\<open>match[1]\<close> of the header pattern on the normalised text, when it matches.\<close>

definition header_block :: "jsstring \<Rightarrow> jsstring option" where
  "header_block content =
     (case match_first header_re (normalizedContent content) of
        Some (_, yaml # _) \<Rightarrow> Some yaml
      | _ \<Rightarrow> None)"

definition keyMatch :: "jsstring \<Rightarrow> (jsstring \<times> jsstring) option" where
  "keyMatch line =
     (case match_first quoted_re line of
        Some (_, k # v # _) \<Rightarrow> Some (k, v)
      | _ \<Rightarrow>
        (case match_first bare_re line of
           Some (_, k # v # _) \<Rightarrow> Some (k, v)
         | _ \<Rightarrow> None))"

fun parse_lines :: "jsstring list \<Rightarrow> frontmatter \<Rightarrow> frontmatter" where
  "parse_lines [] fm = fm"
| "parse_lines (line # lines) fm =
     (case keyMatch line of
        Some (k, v) \<Rightarrow> parse_lines lines (set_prop fm k v)
      | None \<Rightarrow> parse_lines lines fm)"

definition parseFrontmatter :: "jsstring \<Rightarrow> frontmatter" where
  "parseFrontmatter content =
     (case header_block content of
        None \<Rightarrow> Map.empty
      | Some yaml \<Rightarrow> parse_lines (split_on 10 yaml) Map.empty)"

subsection \<open>\<open>SEO_CHECKS\<close>\<close>

datatype severity = Error | Warning | Info

fun severityLevels :: "severity \<Rightarrow> nat" where
  "severityLevels Error = 3"
| "severityLevels Warning = 2"
| "severityLevels Info = 1"

text \<open>
  A check has a name, a predicate, a severity and, optionally, a function that computes
  the detail; as any function of the language, that one may throw. The predicates
  return truthy or falsy values (a list of matches, \<open>null\<close>, a string, a boolean), used
  in a condition only: they are modelled as booleans.
\<close>

record seo_check =
  name :: string
  check :: "jsstring \<Rightarrow> frontmatter \<Rightarrow> bool"
  severity :: severity
  details :: "(jsstring \<Rightarrow> frontmatter \<Rightarrow> exn + jsstring) option"

definition h1_re :: regex where
  "h1_re = \<lparr>ignoreCase = True, alts = [lit ''<h1'' @ [not_gt_star] @ lit ''>'']\<rparr>"

definition img_no_alt_re :: regex where
  "img_no_alt_re = \<lparr>ignoreCase = True, alts = [
     lit ''<img'' @ [NotAhead ([not_gt_star] @ lit ''alt=''), not_gt_star] @ lit ''>'']\<rparr>"

definition img_empty_alt_re :: regex where
  "img_empty_alt_re = \<lparr>ignoreCase = True, alts = [
     lit ''<img'' @ [not_gt_star] @ lit ''alt=''
     @ [One (In [C 34, C 39]), ws_star, One (In [C 34, C 39]), not_gt_star] @ lit ''>'']\<rparr>"

definition entity_re :: regex where
  "entity_re = \<lparr>ignoreCase = True, alts = [
     lit ''&#'' @ [Rep (In [D]) 1 None True] @ lit '';'',
     lit ''&'' @ [Rep (In [R 97 122]) 1 None True] @ lit '';'']\<rparr>"

definition short_fragment_re :: regex where
  "short_fragment_re = \<lparr>ignoreCase = False, alts = [
     [One (In [S]), Rep (In [W]) 1 (Some 3) True, Eos]]\<rparr>"

definition terminal_re :: regex where
  "terminal_re = \<lparr>ignoreCase = False, alts = [[One (In [C 46, C 33, C 63, C 34]), Eos]]\<rparr>"

definition missing_h1 :: "jsstring \<Rightarrow> frontmatter \<Rightarrow> bool" where
  "missing_h1 content fm = (\<not> test h1_re content)"

definition multiple_h1 :: "jsstring \<Rightarrow> frontmatter \<Rightarrow> bool" where
  "multiple_h1 content fm = (length (match_global h1_re content) > 1)"

definition multiple_h1_details :: "jsstring \<Rightarrow> frontmatter \<Rightarrow> exn + jsstring" where
  "multiple_h1_details content fm =
     Inr (str ''Found '' @ digits (length (match_global h1_re content)) @ str '' h1 tags'')"

definition missing_title :: "jsstring \<Rightarrow> frontmatter \<Rightarrow> bool" where
  "missing_title content fm =
     (falsy (fm (str ''title'')) \<or> trim (the (fm (str ''title''))) = [])"

definition missing_description :: "jsstring \<Rightarrow> frontmatter \<Rightarrow> bool" where
  "missing_description content fm =
     (falsy (fm (str ''description'')) \<or> trim (the (fm (str ''description''))) = [])"

definition truncated_description :: "jsstring \<Rightarrow> frontmatter \<Rightarrow> bool" where
  "truncated_description content fm =
     (if falsy (fm (str ''description'')) then False
      else (let desc = trim (the (fm (str ''description''))) in
        length desc > 50 \<and>
        (endsWith desc (str ''...'') \<or> test short_fragment_re desc \<or> \<not> test terminal_re desc)))"

definition truncated_description_details :: "jsstring \<Rightarrow> frontmatter \<Rightarrow> exn + jsstring" where
  "truncated_description_details content fm =
     (case fm (str ''description'') of
        None \<Rightarrow> Inl TypeError
      | Some d \<Rightarrow> Inr ([34] @ take 80 d @ str ''...'' @ [34]))"

definition description_too_short :: "jsstring \<Rightarrow> frontmatter \<Rightarrow> bool" where
  "description_too_short content fm =
     (if falsy (fm (str ''description'')) then False
      else length (the (fm (str ''description''))) < 50)"

definition description_too_long :: "jsstring \<Rightarrow> frontmatter \<Rightarrow> bool" where
  "description_too_long content fm =
     (if falsy (fm (str ''description'')) then False
      else length (the (fm (str ''description''))) > 160)"

definition description_length_details :: "jsstring \<Rightarrow> frontmatter \<Rightarrow> exn + jsstring" where
  "description_length_details content fm =
     (case fm (str ''description'') of
        None \<Rightarrow> Inl TypeError
      | Some d \<Rightarrow> Inr (digits (length d) @ str '' chars (recommended: 120-160)''))"

definition missing_og_image :: "jsstring \<Rightarrow> frontmatter \<Rightarrow> bool" where
  "missing_og_image content fm =
     (falsy (fm (str ''ogImage'')) \<or> trim (the (fm (str ''ogImage''))) = [])"

definition images_missing_alt :: "jsstring \<Rightarrow> frontmatter \<Rightarrow> bool" where
  "images_missing_alt content fm =
     (length (match_global img_no_alt_re content) > 0
      \<or> length (match_global img_empty_alt_re content) > 0)"

definition images_missing_alt_details :: "jsstring \<Rightarrow> frontmatter \<Rightarrow> exn + jsstring" where
  "images_missing_alt_details content fm =
     Inr (digits (length (match_global img_no_alt_re content)) @ str '' missing, ''
          @ digits (length (match_global img_empty_alt_re content)) @ str '' empty'')"

definition contains_entities :: "jsstring \<Rightarrow> frontmatter \<Rightarrow> bool" where
  "contains_entities content fm =
     ((\<not> falsy (fm (str ''title'')) \<and> test entity_re (the (fm (str ''title''))))
      \<or> (\<not> falsy (fm (str ''description'')) \<and> test entity_re (the (fm (str ''description'')))))"

text \<open>
  \<open>[...new Set(entities)]\<close> keeps the first occurrence of every entity, in order.
  Lists are unbounded here: the limit an engine puts on the number of arguments that
  \<open>push(...matches)\<close> spreads is not part of the language and is not modelled.
\<close>

definition contains_entities_details :: "jsstring \<Rightarrow> frontmatter \<Rightarrow> exn + jsstring" where
  "contains_entities_details content fm =
     (let titleMatches =
            (if falsy (fm (str ''title'')) then []
             else match_global entity_re (the (fm (str ''title''))));
          descMatches =
            (if falsy (fm (str ''description'')) then []
             else match_global entity_re (the (fm (str ''description''))));
          entities = titleMatches @ descMatches
      in Inr (str ''Found: '' @ join (str '', '') (rev (remdups (rev entities)))))"

definition missing_canonical :: "jsstring \<Rightarrow> frontmatter \<Rightarrow> bool" where
  "missing_canonical content fm =
     (falsy (fm (str ''ogUrl'')) \<and> falsy (fm (str ''canonicalUrl'')))"

definition SEO_CHECKS :: "seo_check list" where
  "SEO_CHECKS =
     [\<lparr>name = ''Missing H1 Tag'', check = missing_h1, severity = Error, details = None\<rparr>,
      \<lparr>name = ''Multiple H1 Tags'', check = multiple_h1, severity = Warning,
        details = Some multiple_h1_details\<rparr>,
      \<lparr>name = ''Missing Title'', check = missing_title, severity = Error, details = None\<rparr>,
      \<lparr>name = ''Missing Description'', check = missing_description, severity = Error,
        details = None\<rparr>,
      \<lparr>name = ''Truncated Description'', check = truncated_description, severity = Warning,
        details = Some truncated_description_details\<rparr>,
      \<lparr>name = ''Description Too Short'', check = description_too_short, severity = Warning,
        details = Some description_length_details\<rparr>,
      \<lparr>name = ''Description Too Long'', check = description_too_long, severity = Info,
        details = Some description_length_details\<rparr>,
      \<lparr>name = ''Missing OG Image'', check = missing_og_image, severity = Warning,
        details = None\<rparr>,
      \<lparr>name = ''Images Missing Alt Text'', check = images_missing_alt, severity = Warning,
        details = Some images_missing_alt_details\<rparr>,
      \<lparr>name = ''Contains HTML Entities'', check = contains_entities, severity = Warning,
        details = Some contains_entities_details\<rparr>,
      \<lparr>name = ''Missing Canonical URL'', check = missing_canonical, severity = Info,
        details = None\<rparr>]"

subsection \<open>\<open>main\<close>\<close>

text \<open>
  The global statistics of the audit. \<open>issuesBySeverity\<close> has the three severities as
  its keys from the start.
\<close>

datatype issue =
  Issue (issue_check: string) (issue_severity: severity) (issue_details: "jsstring option")

datatype file_issues =
  FileIssues (fi_file: string) (fi_title: jsstring) (fi_issues: "issue list")

record audit_stats = scan_stats +
  issuesByType :: "(string \<times> nat) list"
  issuesBySeverity :: "severity \<Rightarrow> nat"
  fileIssues :: "file_issues list"

definition initial_audit_stats :: audit_stats where
  "initial_audit_stats =
     \<lparr>filesScanned = 0, issuesByType = [], issuesBySeverity = (\<lambda>_. 0), fileIssues = []\<rparr>"

text \<open>
  \<open>minLevel = severityLevels[minSeverity] || 1\<close>, for the text after \<open>--severity=\<close>
  (\<open>info\<close> when the option is absent). A text that names a property every object
  inherits gives a value that is not a number; compared with it no level is smaller, as
  with the level 1.
\<close>

definition minLevel_of :: "string \<Rightarrow> nat" where
  "minLevel_of minSeverity =
     (if minSeverity = ''error'' then 3
      else if minSeverity = ''warning'' then 2
      else if minSeverity = ''info'' then 1
      else 1)"

text \<open>
  \<open>check.details ? check.details(content, frontmatter) : null\<close>: the detail of an issue,
  \<open>null\<close> for a check without a detail function, or the exception thrown.
\<close>

definition detail_of :: "seo_check \<Rightarrow> jsstring \<Rightarrow> frontmatter \<Rightarrow> exn + jsstring option" where
  "detail_of c content fm =
     (case details c of None \<Rightarrow> Inr None | Some f \<Rightarrow> map_sum id Some (f content fm))"

text \<open>
  The inner loop of \<open>main\<close>, over the checks, on the state \<open>(fileIssues, stats)\<close>. The
  detail is computed before the issue is pushed and before either counter changes; an
  exception thrown there leaves the loop.
\<close>

fun run_checks ::
  "seo_check list \<Rightarrow> nat \<Rightarrow> jsstring \<Rightarrow> frontmatter \<Rightarrow> issue list \<times> audit_stats
     \<Rightarrow> (issue list \<times> audit_stats) \<times> exn option" where
  "run_checks [] minLevel content fm acc = (acc, None)"
| "run_checks (c # cs) minLevel content fm (found, st) =
     (if severityLevels (severity c) < minLevel then run_checks cs minLevel content fm (found, st)
      else if check c content fm then
        (case detail_of c content fm of
           Inl e \<Rightarrow> ((found, st), Some e)
         | Inr d \<Rightarrow>
             run_checks cs minLevel content fm
               (found @ [Issue (name c) (severity c) d],
                st\<lparr>issuesByType := bump (name c) 1 (issuesByType st),
                   issuesBySeverity := (issuesBySeverity st)
                     (severity c := issuesBySeverity st (severity c) + 1)\<rparr>))
      else run_checks cs minLevel content fm (found, st))"

record audit_state =
  a_fsys :: filesystem
  a_stats :: audit_stats

text \<open>
  The loop of \<open>main\<close> over the enumerated files. Nothing in it catches an exception:
  one leaves \<open>main\<close>, whose caller prints it as fatal and ends the process with status 1.
\<close>

fun audit_loop ::
  "seo_check list \<Rightarrow> nat \<Rightarrow> string list \<Rightarrow> audit_state \<Rightarrow> audit_state \<times> exn option" where
  "audit_loop checks minLevel [] st = (st, None)"
| "audit_loop checks minLevel (f # files) st =
     (case readFileSync (a_fsys st) f of
        Inl e \<Rightarrow> (st, Some e)
      | Inr content \<Rightarrow>
          (let fm = parseFrontmatter content;
               st1 = (a_stats st)\<lparr>filesScanned := filesScanned (a_stats st) + 1\<rparr>
           in case run_checks checks minLevel content fm ([], st1) of
                ((found, st2), Some e) \<Rightarrow> (st\<lparr>a_stats := st2\<rparr>, Some e)
              | ((found, st2), None) \<Rightarrow>
                  audit_loop checks minLevel files
                    (st\<lparr>a_stats :=
                       (if length found > 0 then
                          st2\<lparr>fileIssues := fileIssues st2 @
                            [FileIssues f
                               (if falsy (fm (str ''title'')) then str ''(no title)''
                                else the (fm (str ''title'')))
                               found]\<rparr>
                        else st2)\<rparr>)))"

definition audit_main :: "string \<Rightarrow> string list \<Rightarrow> filesystem \<Rightarrow> audit_state \<times> exn option" where
  "audit_main minSeverity files fs =
     audit_loop SEO_CHECKS (minLevel_of minSeverity) files
       \<lparr>a_fsys = fs, a_stats = initial_audit_stats\<rparr>"

section \<open>Auxiliary notions and concrete inputs\<close>

text \<open>
  The least number of characters a sequence consumes; a pattern is consuming when no
  alternative of it can match the empty text.
\<close>

fun min_len :: "atom list \<Rightarrow> nat" where
  "min_len [] = 0"
| "min_len (One c # r) = 1 + min_len r"
| "min_len (Rep c mn mx g # r) = (case mx of None \<Rightarrow> mn | Some k \<Rightarrow> min mn k) + min_len r"
| "min_len (a # r) = min_len r"

definition consuming :: "regex \<Rightarrow> bool" where
  "consuming re = list_all (\<lambda>a. 0 < min_len a) (alts re)"

text \<open>Documents, a file system and a starting state on which runs are evaluated.\<close>

definition page :: jsstring where
  "page = str ''a<!-- Begin Comments -->x<!-- End Comments -->b''"

definition disk :: filesystem where
  "disk = \<lparr>contents = [''p/index.html'' \<mapsto> page], writable = (\<lambda>_. True)\<rparr>"

definition start :: cleanup_state where
  "start = \<lparr>fsys = disk, stats = initial_cleanup_stats, console = []\<rparr>"

definition nested :: jsstring where
  "nested = str ''<!-- Begin Com<!-- Begin Comments --><!-- End Comments -->ments --><!-- End Comments -->''"

definition joined :: jsstring where
  "joined = str ''<!-- Begin Comments --><!-- End Comments -->''"

definition sum_by_type :: "audit_stats \<Rightarrow> nat" where
  "sum_by_type st = sum_list (map snd (issuesByType st))"

definition sum_by_severity :: "audit_stats \<Rightarrow> nat" where
  "sum_by_severity st =
     issuesBySeverity st Error + issuesBySeverity st Warning + issuesBySeverity st Info"

text \<open>
  What the severity filter leaves in the statistics: no recorded issue below the level,
  a zero count for every severity below it, and no entry for a name that only checks
  below it carry.
\<close>

definition suppressed :: "seo_check list \<Rightarrow> nat \<Rightarrow> audit_stats \<Rightarrow> bool" where
  "suppressed cs lvl st =
     ((\<forall>fi\<in>set (fileIssues st). \<forall>i\<in>set (fi_issues fi). lvl \<le> severityLevels (issue_severity i)) \<and>
      (\<forall>s. severityLevels s < lvl \<longrightarrow> issuesBySeverity st s = 0) \<and>
      (\<forall>nm. (\<forall>c\<in>set cs. name c = nm \<longrightarrow> severityLevels (severity c) < lvl) \<longrightarrow>
         map_of (issuesByType st) nm = None))"

text \<open>
  A page whose only issues are warnings, a file system that holds it, and two checks of
  the table by themselves.
\<close>

definition docw :: jsstring where
  "docw = str ''---\<newline>title: T\<newline>description: D\<newline>ogUrl: u\<newline>---\<newline><h1>x</h1>''"

definition disk_w :: filesystem where
  "disk_w = \<lparr>contents = [''w/index.html'' \<mapsto> docw], writable = (\<lambda>_. True)\<rparr>"

definition og_image_check :: seo_check where
  "og_image_check = \<lparr>name = ''Missing OG Image'', check = missing_og_image, severity = Warning,
        details = None\<rparr>"


text \<open>
  The condition of the rule on truncated descriptions in the words of the specification:
  the trimmed description is longer than 50 and ends with an ellipsis, or ends with a
  word fragment of one to three word characters after white space, or does not end with
  one of \<open>.\<close>, \<open>!\<close>, \<open>?\<close> or a double quote.
\<close>

definition ends_with_ellipsis :: "jsstring \<Rightarrow> bool" where
  "ends_with_ellipsis s = (\<exists>p. s = p @ str ''...'')"

definition ends_with_short_fragment :: "jsstring \<Rightarrow> bool" where
  "ends_with_short_fragment s =
     (\<exists>p w f. s = p @ w # f \<and> is_space w \<and> 1 \<le> length f \<and> length f \<le> 3 \<and> list_all is_word f)"

definition ends_with_terminal :: "jsstring \<Rightarrow> bool" where
  "ends_with_terminal s = (s \<noteq> [] \<and> last s \<in> {46, 33, 63, 34})"

definition spec_truncated :: "jsstring \<Rightarrow> bool" where
  "spec_truncated d =
     (length (trim d) > 50 \<and>
      (ends_with_ellipsis (trim d) \<or> ends_with_short_fragment (trim d)
       \<or> \<not> ends_with_terminal (trim d)))"

text \<open>
  The two descriptions that the specification names, and one that is cut after more than
  50 characters; the page of the specification's example of a header; and a page in
  which a line that begins with the marker and goes on stands before the closing line.
\<close>

definition example_thing :: jsstring where
  "example_thing = str ''This is a great article about many thing''"

definition example_things :: jsstring where
  "example_things = str ''This is a great article about many things.''"

definition example_cut :: jsstring where
  "example_cut = str ''This is a great article about many things and a lot of othe''"

definition doc_hello :: jsstring where
  \<open>doc_hello = str ''---\<newline>title: "Hello"\<newline>description: World\<newline>---\<newline>body''\<close>

definition doc_split :: jsstring where
  "doc_split = str ''---\<newline>title: A\<newline>---x\<newline>description: B\<newline>---\<newline>''"

section \<open>Properties of the matcher and of the global loop\<close>

text \<open>Facts with which concrete runs are evaluated by rewriting.\<close>

lemmas pats = REMOVAL_PATTERNS_def REMOVAL_PATTERNS_4_def social_share_def related_articles_def
  pagination_def comments_def article_meta_def pricing_styles_def pricing_html_def
  lit_def ws_star_def any_lazy_def not_gt_star_def

lemmas ev = test_def match_here_def match_global_def replace_global_def str_def
  item_match_def is_space_def is_digit_def is_word_def is_line_terminator_def swapcase_def

lemmas audit_pats = crlf_re_def header_re_def quoted_re_def bare_re_def h1_re_def
  img_no_alt_re_def img_empty_alt_re_def entity_re_def short_fragment_re_def terminal_re_def
  lit_def ws_star_def any_lazy_def not_gt_star_def

lemmas fm_ev = parseFrontmatter_def header_block_def normalizedContent_def match_first_def keyMatch_def
  set_prop_def

lemmas check_ev = missing_h1_def multiple_h1_def missing_title_def missing_description_def
  truncated_description_def description_too_short_def description_too_long_def
  missing_og_image_def images_missing_alt_def contains_entities_def missing_canonical_def
  falsy_def trim_def endsWith_def

text \<open>A match never ends before it starts: the rest after it is no longer than the input.\<close>

lemma m_rest_le: "m ic p b s = Some (ms, e) \<Longrightarrow> length e \<le> length s"
proof (induction ic p b s arbitrary: ms e rule: m.induct)
  case (5 ic c mn mx g r b x xs)
  then show ?case
    by (auto split: if_splits option.splits simp del: m.simps(4) dest!: le_SucI) 
qed (auto split: if_splits option.splits)

lemma first_alt_rest_le: "first_alt ic as b s = Some (ms, e) \<Longrightarrow> length e \<le> length s"
  by (induction as) (auto split: option.splits dest: m_rest_le)

lemma match_here_rest_le: "match_here re b s = Some (ms, e) \<Longrightarrow> length e \<le> length s"
  unfolding match_here_def by (rule first_alt_rest_le)

lemma gscan_out_le: "length (snd (gscan re [] b k s)) \<le> length s"
proof (induction s arbitrary: b k)
  case Nil
  then show ?case by (cases k) (auto split: option.splits)
next
  case (Cons x xs)
  show ?case
  proof (cases k)
    case 0
    show ?thesis
    proof (cases "match_here re b (x # xs)")
      case None
      with 0 Cons[of False 0] show ?thesis by (simp add: case_prod_beta)
    next
      case (Some r)
      obtain ms e where r: "r = (ms, e)" by (cases r)
      show ?thesis
      proof (cases "Suc (length xs) - length e = 0")
        case True
        with 0 Some r Cons[of False 0] show ?thesis by (simp add: case_prod_beta)
      next
        case False
        with 0 Some r Cons[of False "length xs - length e"] show ?thesis
          by (simp add: case_prod_beta)
      qed
    qed
  next
    case (Suc j)
    with Cons[of False j] show ?thesis by simp
  qed
qed

lemma gscan_none: "regexp_exec re b s = None \<Longrightarrow> gscan re rep b 0 s = ([], s)"
  by (induction s arbitrary: b) (auto split: option.splits)

lemma gscan_found_empty: "fst (gscan re rep b 0 s) = [] \<Longrightarrow> regexp_exec re b s = None"
  by (induction s arbitrary: b) (auto split: option.splits prod.splits if_splits simp: Let_def)

lemma match_global_empty_iff: "match_global re s = [] \<longleftrightarrow> \<not> test re s"
proof (cases "regexp_exec re True s")
  case None
  then show ?thesis by (simp add: match_global_def test_def gscan_none)
next
  case (Some r)
  with gscan_found_empty[of re "[]" True s] show ?thesis
    by (auto simp: match_global_def test_def)
qed

lemma replace_global_none: "\<not> test re s \<Longrightarrow> replace_global re rep s = s"
  by (cases "regexp_exec re True s") (simp_all add: replace_global_def test_def gscan_none)

lemma replace_global_le: "length (replace_global re [] s) \<le> length s"
  unfolding replace_global_def by (rule gscan_out_le)

lemma cleanup_rules_le:
  "cleanup_rules t (d, n, bt) = (d', n', bt') \<Longrightarrow> length d' \<le> length d"
proof (induction t arbitrary: d n bt)
  case Nil
  then show ?case by simp
next
  case (Cons a t)
  obtain nm p where a: "a = (nm, p)" by (cases a)
  show ?case
  proof (cases "match_global p d = []")
    case True
    with Cons a show ?thesis by simp
  next
    case False
    with Cons.prems a have
      "cleanup_rules t (replace_global p [] d, n + length (match_global p d),
         bump nm (length (match_global p d)) bt) = (d', n', bt')"
      by (simp add: Let_def)
    from Cons.IH[OF this] replace_global_le[of p d] show ?thesis by simp
  qed
qed

lemma cleanup_rules_no_match:
  "list_all (\<lambda>(nm, p). \<not> test p d) t \<Longrightarrow> cleanup_rules t (d, n, bt) = (d, n, bt)"
  by (induction t) (auto simp: match_global_empty_iff)

lemma cleanupContent_with_le:
  "length (fst (fst (cleanupContent_with t content st))) \<le> length content"
proof -
  obtain d n bt where r: "cleanup_rules t (content, 0, removalsByType st) = (d, n, bt)"
    by (cases "cleanup_rules t (content, 0, removalsByType st)")
  from cleanup_rules_le[OF r] r show ?thesis by (simp add: cleanupContent_with_def)
qed

lemma cleanupContent_with_no_match:
  assumes "\<forall>(nm, p)\<in>set t. \<not> test p content"
  shows "cleanupContent_with t content st = ((content, 0), st)"
proof -
  from assms have "list_all (\<lambda>(nm, p). \<not> test p content) t" by (simp add: list_all_iff)
  then show ?thesis by (simp add: cleanupContent_with_def cleanup_rules_no_match)
qed

lemma m_min_len: "m ic p b s = Some (ms, e) \<Longrightarrow> length e + min_len p \<le> length s"
proof (induction ic p b s arbitrary: ms e rule: m.induct)
  case (4 ic c mn mx g r b)
  then show ?case by (auto split: if_splits option.splits)
next
  case (5 ic c mn mx g r b x xs)
  then show ?case
    by (cases mx) (fastforce split: if_splits option.splits simp del: m.simps(4))+
qed (auto split: if_splits option.splits)

lemma first_alt_min_len:
  "first_alt ic as b s = Some (ms, e) \<Longrightarrow> list_all (\<lambda>a. 0 < min_len a) as \<Longrightarrow> length e < length s"
  by (induction as) (auto split: option.splits dest: m_min_len)

lemma match_here_consuming:
  "consuming re \<Longrightarrow> match_here re b s = Some (ms, e) \<Longrightarrow> length e < length s"
  unfolding match_here_def consuming_def by (rule first_alt_min_len)

lemma gscan_shrinks:
  "consuming re \<Longrightarrow> fst (gscan re [] b 0 s) \<noteq> [] \<Longrightarrow> length (snd (gscan re [] b 0 s)) < length s"
proof (induction s arbitrary: b)
  case Nil
  then show ?case by (auto split: option.splits dest: match_here_consuming)
next
  case (Cons x xs)
  show ?case
  proof (cases "match_here re b (x # xs)")
    case None
    with Cons show ?thesis by (simp add: case_prod_beta)
  next
    case (Some r)
    obtain ms e where r: "r = (ms, e)" by (cases r)
    from match_here_consuming[OF Cons.prems(1)] Some r have "length e < Suc (length xs)" by fastforce
    with Some r gscan_out_le[of re False "length xs - length e" xs]
    show ?thesis by (simp add: case_prod_beta Let_def)
  qed
qed

lemma cleanup_rules_progress:
  "list_all (\<lambda>(nm, p). consuming p) t \<Longrightarrow> cleanup_rules t (d, n, bt) = (d', n', bt') \<Longrightarrow>
   (n' = n \<and> d' = d \<and> bt' = bt) \<or> (n < n' \<and> length d' < length d)"
proof (induction t arbitrary: d n bt)
  case Nil
  then show ?case by simp
next
  case (Cons a t)
  obtain nm p where a: "a = (nm, p)" by (cases a)
  from Cons.prems(1) a have t: "list_all (\<lambda>(nm, p). consuming p) t" and p: "consuming p" by auto
  show ?case
  proof (cases "match_global p d = []")
    case True
    with Cons.prems a have "cleanup_rules t (d, n, bt) = (d', n', bt')" by simp
    from Cons.IH[OF t this] show ?thesis .
  next
    case False
    with Cons.prems a have
      "cleanup_rules t (replace_global p [] d, n + length (match_global p d),
         bump nm (length (match_global p d)) bt) = (d', n', bt')"
      by (simp add: Let_def)
    from Cons.IH[OF t this] gscan_shrinks[OF p, of True d] False
    show ?thesis by (auto simp: match_global_def replace_global_def)
  qed
qed

lemma consuming_table: "list_all (\<lambda>(nm, p). consuming p) REMOVAL_PATTERNS"
  by (simp add: consuming_def pats)

lemma consuming_table_4: "list_all (\<lambda>(nm, p). consuming p) REMOVAL_PATTERNS_4"
  using consuming_table by (simp add: REMOVAL_PATTERNS_def)

lemma cleanupContent_with_fixed_iff:
  assumes "list_all (\<lambda>(nm, p). consuming p) t"
  shows "snd (fst (cleanupContent_with t d s)) = 0 \<longleftrightarrow> fst (fst (cleanupContent_with t d s)) = d"
    and "0 < snd (fst (cleanupContent_with t d s)) \<longrightarrow> length (fst (fst (cleanupContent_with t d s))) < length d"
proof -
  obtain d' n' bt' where r: "cleanup_rules t (d, 0, removalsByType s) = (d', n', bt')"
    by (cases "cleanup_rules t (d, 0, removalsByType s)")
  from cleanup_rules_progress[OF assms r] r
  show "snd (fst (cleanupContent_with t d s)) = 0 \<longleftrightarrow> fst (fst (cleanupContent_with t d s)) = d"
    and "0 < snd (fst (cleanupContent_with t d s)) \<longrightarrow> length (fst (fst (cleanupContent_with t d s))) < length d"
    by (auto simp: cleanupContent_with_def)
qed

lemma gscan_count_le:
  "consuming re \<Longrightarrow>
   length (snd (gscan re [] b k s)) + length (fst (gscan re [] b k s)) + min k (length s) \<le> length s"
proof (induction s arbitrary: b k)
  case Nil
  then show ?case
    by (cases k) (auto split: option.splits dest: match_here_consuming)
next
  case (Cons x xs)
  show ?case
  proof (cases k)
    case (Suc j)
    with Cons.IH[OF Cons.prems, of False j] show ?thesis by simp
  next
    case 0
    show ?thesis
    proof (cases "match_here re b (x # xs)")
      case None
      with 0 Cons.IH[OF Cons.prems, of False 0] show ?thesis by (simp add: case_prod_beta)
    next
      case (Some r)
      obtain ms e where r: "r = (ms, e)" by (cases r)
      from match_here_consuming[OF Cons.prems] Some r have "length e < Suc (length xs)"
        by fastforce
      with 0 Some r Cons.IH[OF Cons.prems, of False "length xs - length e"]
      show ?thesis by (simp add: case_prod_beta Let_def)
    qed
  qed
qed

lemma cleanup_rules_count_le:
  "list_all (\<lambda>(nm, p). consuming p) t \<Longrightarrow> cleanup_rules t (d, n, bt) = (d', n', bt') \<Longrightarrow>
   length d' + n' \<le> length d + n"
proof (induction t arbitrary: d n bt)
  case Nil
  then show ?case by simp
next
  case (Cons a t)
  obtain nm p where a: "a = (nm, p)" by (cases a)
  from Cons.prems(1) a have t: "list_all (\<lambda>(nm, p). consuming p) t" and p: "consuming p" by auto
  show ?case
  proof (cases "match_global p d = []")
    case True
    with Cons.prems a have "cleanup_rules t (d, n, bt) = (d', n', bt')" by simp
    from Cons.IH[OF t this] show ?thesis .
  next
    case False
    with Cons.prems a have
      "cleanup_rules t (replace_global p [] d, n + length (match_global p d),
         bump nm (length (match_global p d)) bt) = (d', n', bt')"
      by (simp add: Let_def)
    from Cons.IH[OF t this] gscan_count_le[OF p, of True 0 d]
    show ?thesis by (simp add: match_global_def replace_global_def)
  qed
qed

lemma cleanupContent_with_count_le:
  assumes "list_all (\<lambda>(nm, p). consuming p) t"
  shows "length (fst (fst (cleanupContent_with t d s))) + snd (fst (cleanupContent_with t d s))
     \<le> length d"
proof -
  obtain d' n' bt' where r: "cleanup_rules t (d, 0, removalsByType s) = (d', n', bt')"
    by (cases "cleanup_rules t (d, 0, removalsByType s)")
  from cleanup_rules_count_le[OF assms r] r show ?thesis
    by (simp add: cleanupContent_with_def)
qed

lemma cleanup_rules_indep:
  "cleanup_rules t (d, n, bt) = (d', n', bt') \<Longrightarrow>
   \<exists>bt''. cleanup_rules t (d, n, ct) = (d', n', bt'')"
proof (induction t arbitrary: d n bt ct)
  case Nil
  then show ?case by simp
next
  case (Cons a t)
  obtain nm p where a: "a = (nm, p)" by (cases a)
  show ?case
  proof (cases "match_global p d = []")
    case True
    with Cons.prems a have "cleanup_rules t (d, n, bt) = (d', n', bt')" by simp
    from Cons.IH[OF this, of ct] True a show ?thesis by simp
  next
    case False
    with Cons.prems a have
      "cleanup_rules t (replace_global p [] d, n + length (match_global p d),
         bump nm (length (match_global p d)) bt) = (d', n', bt')"
      by (simp add: Let_def)
    from Cons.IH[OF this, of "bump nm (length (match_global p d)) ct"] False a
    show ?thesis by (simp add: Let_def)
  qed
qed

lemma cleanupContent_with_fst_indep:
  "fst (cleanupContent_with t content s) = fst (cleanupContent_with t content s')"
proof -
  obtain d n bt where r: "cleanup_rules t (content, 0, removalsByType s) = (d, n, bt)"
    by (cases "cleanup_rules t (content, 0, removalsByType s)")
  from cleanup_rules_indep[OF r, of "removalsByType s'"] r show ?thesis
    by (auto simp: cleanupContent_with_def)
qed

lemma processFile_with_dry_stats:
  "stats (fst (processFile_with t fp True st)) = stats (fst (processFile_with t fp False st))"
  by (auto simp: processFile_with_def readFileSync_def writeFileSync_def Let_def
      split: option.splits prod.splits)

lemma processFile_with_dry_console:
  "console (fst (processFile_with t fp True st)) = console (fst (processFile_with t fp False st))"
  by (auto simp: processFile_with_def readFileSync_def writeFileSync_def Let_def
      split: option.splits prod.splits)

lemma processFile_with_dry_fsys:
  "fsys (fst (processFile_with t fp True st)) = fsys st"
  by (auto simp: processFile_with_def readFileSync_def Let_def
      split: option.splits prod.splits)

lemma processFile_with_real:
  assumes "contents (fsys st) fp = Some content"
    and "fst (cleanupContent_with t content s) = (modified, totalRemovals)"
  shows "fsys (fst (processFile_with t fp False st)) =
           (if 0 < totalRemovals \<and> writable (fsys st) fp
            then (fsys st)\<lparr>contents := (contents (fsys st))(fp \<mapsto> modified)\<rparr>
            else fsys st)"
    and "removalsByType (stats (fst (processFile_with t fp True st))) =
           removalsByType (snd (cleanupContent_with t content (stats st)))"
    and "console (fst (processFile_with t fp True st)) =
           console st @ (if 0 < totalRemovals then [Removed fp totalRemovals] else [])"
proof -
  let ?s1 = "(stats st)\<lparr>filesScanned := filesScanned (stats st) + 1\<rparr>"
  obtain st2 where c: "cleanupContent_with t content ?s1 = ((modified, totalRemovals), st2)"
    using assms(2) cleanupContent_with_fst_indep[of t content ?s1 s]
    by (cases "cleanupContent_with t content ?s1") auto
  from assms(1) c show "fsys (fst (processFile_with t fp False st)) =
           (if 0 < totalRemovals \<and> writable (fsys st) fp
            then (fsys st)\<lparr>contents := (contents (fsys st))(fp \<mapsto> modified)\<rparr>
            else fsys st)"
    by (simp add: processFile_with_def readFileSync_def writeFileSync_def Let_def)
  from assms(1) c show "console (fst (processFile_with t fp True st)) =
           console st @ (if 0 < totalRemovals then [Removed fp totalRemovals] else [])"
    by (simp add: processFile_with_def readFileSync_def Let_def)
  have "removalsByType st2 = removalsByType (snd (cleanupContent_with t content (stats st)))"
    using c by (auto simp: cleanupContent_with_def split: prod.splits)
  with assms(1) c show "removalsByType (stats (fst (processFile_with t fp True st))) =
           removalsByType (snd (cleanupContent_with t content (stats st)))"
    by (simp add: processFile_with_def readFileSync_def Let_def)
qed

lemma processFile_with_all:
  "stats (fst (processFile_with t fp True st)) = stats (fst (processFile_with t fp False st)) \<and>
   console (fst (processFile_with t fp True st)) = console (fst (processFile_with t fp False st)) \<and>
   fsys (fst (processFile_with t fp True st)) = fsys st \<and>
   (contents (fsys st) fp = Some content \<longrightarrow>
    fst (cleanupContent_with t content s) = (modified, totalRemovals) \<longrightarrow>
      fsys (fst (processFile_with t fp False st)) =
        (if 0 < totalRemovals \<and> writable (fsys st) fp
         then (fsys st)\<lparr>contents := (contents (fsys st))(fp \<mapsto> modified)\<rparr>
         else fsys st) \<and>
      removalsByType (stats (fst (processFile_with t fp True st))) =
        removalsByType (snd (cleanupContent_with t content (stats st))) \<and>
      console (fst (processFile_with t fp True st)) =
        console st @ (if 0 < totalRemovals then [Removed fp totalRemovals] else []))"
proof (intro conjI impI)
  show "stats (fst (processFile_with t fp True st)) = stats (fst (processFile_with t fp False st))"
    by (rule processFile_with_dry_stats)
  show "console (fst (processFile_with t fp True st)) = console (fst (processFile_with t fp False st))"
    by (rule processFile_with_dry_console)
  show "fsys (fst (processFile_with t fp True st)) = fsys st"
    by (rule processFile_with_dry_fsys)
next
  assume c: "contents (fsys st) fp = Some content"
    and e: "fst (cleanupContent_with t content s) = (modified, totalRemovals)"
  show "fsys (fst (processFile_with t fp False st)) =
        (if 0 < totalRemovals \<and> writable (fsys st) fp
         then (fsys st)\<lparr>contents := (contents (fsys st))(fp \<mapsto> modified)\<rparr>
         else fsys st)"
    by (rule processFile_with_real(1)[OF c e])
  show "removalsByType (stats (fst (processFile_with t fp True st))) =
        removalsByType (snd (cleanupContent_with t content (stats st)))"
    by (rule processFile_with_real(2)[OF c e])
  show "console (fst (processFile_with t fp True st)) =
        console st @ (if 0 < totalRemovals then [Removed fp totalRemovals] else [])"
    by (rule processFile_with_real(3)[OF c e])
qed

lemma cleanup_page:
  "cleanupContent_with REMOVAL_PATTERNS page initial_cleanup_stats =
     ((str ''ab'', 1), initial_cleanup_stats\<lparr>removalsByType := [(''Comments Section'', 1)]\<rparr>)"
  by (simp add: cleanupContent_with_def page_def initial_cleanup_stats_def pats ev)

lemma cleanup_page_4:
  "cleanupContent_with REMOVAL_PATTERNS_4 page initial_cleanup_stats =
     ((str ''ab'', 1), initial_cleanup_stats\<lparr>removalsByType := [(''Comments Section'', 1)]\<rparr>)"
  by (simp add: cleanupContent_with_def page_def initial_cleanup_stats_def pats ev)

lemma no_match_ab: "list_all (\<lambda>(nm, p). \<not> test p (str ''ab'')) REMOVAL_PATTERNS"
  by (simp add: pats ev)

lemma cleanupContent_with_filesScanned:
  "filesScanned (snd (cleanupContent_with t c s)) = filesScanned s"
  by (simp add: cleanupContent_with_def split: prod.splits)

lemma processFile_with_filesScanned:
  "filesScanned (stats (fst (processFile_with t fp d st))) = filesScanned (stats st) + 1"
proof (cases "contents (fsys st) fp")
  case None
  then show ?thesis by (simp add: processFile_with_def readFileSync_def)
next
  case (Some c)
  let ?s1 = "(stats st)\<lparr>filesScanned := filesScanned (stats st) + 1\<rparr>"
  obtain md n s2 where r: "cleanupContent_with t c ?s1 = ((md, n), s2)"
    by (cases "cleanupContent_with t c ?s1") auto
  from cleanupContent_with_filesScanned[of t c ?s1] r
  have "filesScanned s2 = filesScanned (stats st) + 1" by simp
  with Some r show ?thesis
    by (simp add: processFile_with_def readFileSync_def writeFileSync_def Let_def
        split: sum.splits)
qed

lemma processFile_with_console:
  "set (console st) \<subseteq> set (console (fst (processFile_with t fp d st)))"
  by (auto simp: processFile_with_def readFileSync_def writeFileSync_def Let_def
      split: option.splits prod.splits sum.splits)

lemma processFile_with_unreadable:
  "contents (fsys st) fp = None \<Longrightarrow>
   processFile_with t fp d st =
     (st\<lparr>stats := (stats st)\<lparr>filesScanned := filesScanned (stats st) + 1\<rparr>\<rparr>, Some (IOError fp))"
  by (simp add: processFile_with_def readFileSync_def)

lemma processFile_with_keeps_unreadable:
  "contents (fsys st) f = None \<Longrightarrow> contents (fsys (fst (processFile_with t fp d st))) f = None"
  by (auto simp: processFile_with_def readFileSync_def writeFileSync_def Let_def
      split: option.splits prod.splits sum.splits)

lemma main_loop_with_append:
  "main_loop_with t d (xs @ ys) st = main_loop_with t d ys (main_loop_with t d xs st)"
  by (induction xs arbitrary: st) (auto split: prod.splits option.splits)

lemma main_loop_with_filesScanned:
  "filesScanned (stats (main_loop_with t d files st)) = filesScanned (stats st) + length files"
proof (induction files arbitrary: st)
  case Nil
  then show ?case by simp
next
  case (Cons f files)
  obtain st' r where p: "processFile_with t f d st = (st', r)"
    by (cases "processFile_with t f d st")
  from processFile_with_filesScanned[of t f d st] p
  have "filesScanned (stats st') = filesScanned (stats st) + 1" by simp
  with p Cons.IH[of st'] Cons.IH[of "st'\<lparr>console := console st' @ [ErrorProcessing f (the r)]\<rparr>"]
  show ?case by (cases r) simp_all
qed

lemma main_loop_with_console:
  "set (console st) \<subseteq> set (console (main_loop_with t d files st))"
proof (induction files arbitrary: st)
  case Nil
  then show ?case by simp
next
  case (Cons f files)
  obtain st' r where p: "processFile_with t f d st = (st', r)"
    by (cases "processFile_with t f d st")
  from processFile_with_console[of st t f d] p
  have s: "set (console st) \<subseteq> set (console st')" by simp
  show ?case
  proof (cases r)
    case None
    with p s Cons.IH[of st'] show ?thesis by auto
  next
    case (Some e)
    with p s Cons.IH[of "st'\<lparr>console := console st' @ [ErrorProcessing f e]\<rparr>"]
    show ?thesis by auto
  qed
qed

lemma main_loop_with_logs_unreadable:
  "contents (fsys st) f = None \<Longrightarrow> f \<in> set files \<Longrightarrow>
   ErrorProcessing f (IOError f) \<in> set (console (main_loop_with t d files st))"
proof (induction files arbitrary: st)
  case Nil
  then show ?case by simp
next
  case (Cons g files)
  obtain st' r where p: "processFile_with t g d st = (st', r)"
    by (cases "processFile_with t g d st")
  show ?case
  proof (cases "g = f")
    case True
    let ?st = "st\<lparr>stats := (stats st)\<lparr>filesScanned := filesScanned (stats st) + 1\<rparr>\<rparr>"
    from True Cons.prems(1) processFile_with_unreadable[of st f t d]
    have "main_loop_with t d (g # files) st =
        main_loop_with t d files (?st\<lparr>console := console ?st @ [ErrorProcessing f (IOError f)]\<rparr>)"
      by simp
    with main_loop_with_console[of "?st\<lparr>console := console ?st @ [ErrorProcessing f (IOError f)]\<rparr>" t d files]
    show ?thesis by auto
  next
    case False
    with Cons.prems have m: "f \<in> set files" by simp
    from processFile_with_keeps_unreadable[OF Cons.prems(1), of t g d] p
    have k: "contents (fsys st') f = None" by simp
    show ?thesis
    proof (cases r)
      case None
      with p Cons.IH[OF k m] show ?thesis by simp
    next
      case (Some e)
      from k have "contents (fsys (st'\<lparr>console := console st' @ [ErrorProcessing g e]\<rparr>)) f = None"
        by simp
      from Cons.IH[OF this m] p Some show ?thesis by simp
    qed
  qed
qed

lemma run_checks_filesScanned:
  "run_checks cs lvl content fm (found, st) = ((found', st'), r) \<Longrightarrow>
   filesScanned st' = filesScanned st"
  by (induction cs lvl content fm "(found, st)" arbitrary: found st rule: run_checks.induct)
     (auto split: if_splits sum.splits option.splits)

lemma audit_loop_fsys: "a_fsys (fst (audit_loop cs lvl files st)) = a_fsys st"
  by (induction files arbitrary: st)
     (auto simp: Let_def readFileSync_def split: option.splits prod.splits sum.splits)

lemma audit_loop_aborts:
  "contents (a_fsys st) f = None \<Longrightarrow> f \<in> set files \<Longrightarrow>
   snd (audit_loop cs lvl files st) \<noteq> None \<and>
   filesScanned (a_stats (fst (audit_loop cs lvl files st))) < filesScanned (a_stats st) + length files"
proof (induction files arbitrary: st)
  case Nil
  then show ?case by simp
next
  case (Cons g files)
  show ?case
  proof (cases "contents (a_fsys st) g")
    case None
    then show ?thesis by (simp add: readFileSync_def)
  next
    case (Some content)
    with Cons.prems have m: "f \<in> set files" by auto
    let ?s1 = "(a_stats st)\<lparr>filesScanned := filesScanned (a_stats st) + 1\<rparr>"
    obtain found st2 r where rc: "run_checks cs lvl content (parseFrontmatter content) ([], ?s1) = ((found, st2), r)"
      by (cases "run_checks cs lvl content (parseFrontmatter content) ([], ?s1)") auto
    from run_checks_filesScanned[OF rc] have fs: "filesScanned st2 = filesScanned (a_stats st) + 1"
      by simp
    show ?thesis
    proof (cases r)
      case (Some e)
      with \<open>contents (a_fsys st) g = Some content\<close> rc fs m show ?thesis
        by (cases files) (simp_all add: readFileSync_def Let_def)
    next
      case None
      let ?st = "st\<lparr>a_stats :=
                       (if length found > 0 then
                          st2\<lparr>fileIssues := fileIssues st2 @
                            [FileIssues g
                               (if falsy (parseFrontmatter content (str ''title'')) then str ''(no title)''
                                else the (parseFrontmatter content (str ''title'')))
                               found]\<rparr>
                        else st2)\<rparr>"
      from Cons.prems(1) have c: "contents (a_fsys ?st) f = None" by simp
      from None \<open>contents (a_fsys st) g = Some content\<close> rc
      have eq: "audit_loop cs lvl (g # files) st = audit_loop cs lvl files ?st"
        by (simp add: readFileSync_def Let_def)
      from fs have n: "filesScanned (a_stats ?st) = filesScanned (a_stats st) + 1" by simp
      from Cons.IH[OF c m] show ?thesis unfolding eq n by simp
    qed
  qed
qed

section \<open>Properties of the audit loop\<close>

lemma bump_sum: "sum_list (map snd (bump k n al)) = sum_list (map snd al) + n"
  by (induction al) auto

lemma bump_other: "k' \<noteq> k \<Longrightarrow> map_of (bump k n al) k' = map_of al k'"
  by (induction al) auto

lemma sum_by_severity_upd:
  "sum_by_severity (st\<lparr>issuesByType := bt,
      issuesBySeverity := (issuesBySeverity st)(s := issuesBySeverity st s + 1)\<rparr>)
   = sum_by_severity st + 1"
  by (cases s) (simp_all add: sum_by_severity_def)

lemma run_checks_skip:
  "severityLevels (severity c) < lvl \<or> \<not> check c content fm \<Longrightarrow>
   run_checks (c # cs) lvl content fm (found, st) = run_checks cs lvl content fm (found, st)"
  by auto

lemma run_checks_throw:
  "\<not> severityLevels (severity c) < lvl \<Longrightarrow> check c content fm \<Longrightarrow>
   detail_of c content fm = Inl e \<Longrightarrow>
   run_checks (c # cs) lvl content fm (found, st) = ((found, st), Some e)"
  by (simp add: detail_of_def)

lemma run_checks_push:
  "\<not> severityLevels (severity c) < lvl \<Longrightarrow> check c content fm \<Longrightarrow>
   detail_of c content fm = Inr d \<Longrightarrow>
   run_checks (c # cs) lvl content fm (found, st) =
     run_checks cs lvl content fm
       (found @ [Issue (name c) (severity c) d],
        st\<lparr>issuesByType := bump (name c) 1 (issuesByType st),
           issuesBySeverity := (issuesBySeverity st)
             (severity c := issuesBySeverity st (severity c) + 1)\<rparr>)"
  by (simp add: detail_of_def)

lemma run_checks_counts:
  "run_checks cs lvl content fm (found, st) = ((found', st'), r) \<Longrightarrow>
   sum_by_type st' + length found = sum_by_type st + length found' \<and>
   sum_by_severity st' + length found = sum_by_severity st + length found'"
proof (induction cs arbitrary: found st)
  case Nil
  then show ?case by simp
next
  case (Cons c cs)
  show ?case
  proof (cases "severityLevels (severity c) < lvl \<or> \<not> check c content fm")
    case True
    with Cons.prems have "run_checks cs lvl content fm (found, st) = ((found', st'), r)"
      by (simp only: run_checks_skip)
    from Cons.IH[OF this] show ?thesis .
  next
    case False
    show ?thesis
    proof (cases "detail_of c content fm")
      case (Inl e)
      with False Cons.prems show ?thesis by (simp add: run_checks_throw del: run_checks.simps)
    next
      case (Inr d)
      let ?st = "st\<lparr>issuesByType := bump (name c) 1 (issuesByType st),
                   issuesBySeverity := (issuesBySeverity st)
                     (severity c := issuesBySeverity st (severity c) + 1)\<rparr>"
      from False Inr Cons.prems have
        "run_checks cs lvl content fm (found @ [Issue (name c) (severity c) d], ?st)
          = ((found', st'), r)" by (simp add: run_checks_push del: run_checks.simps)
      from Cons.IH[OF this]
      have "sum_by_type st' + length (found @ [Issue (name c) (severity c) d])
              = sum_by_type ?st + length found'"
        and "sum_by_severity st' + length (found @ [Issue (name c) (severity c) d])
              = sum_by_severity ?st + length found'"
        by auto
      moreover have "sum_by_type ?st = sum_by_type st + 1"
        by (simp add: sum_by_type_def bump_sum)
      moreover have "sum_by_severity ?st = sum_by_severity st + 1"
        by (rule sum_by_severity_upd)
      ultimately show ?thesis by simp
    qed
  qed
qed

lemma audit_loop_invariant:
  "sum_by_type (a_stats st) = sum_by_severity (a_stats st) \<Longrightarrow>
   sum_by_type (a_stats (fst (audit_loop cs lvl files st)))
     = sum_by_severity (a_stats (fst (audit_loop cs lvl files st)))"
proof (induction files arbitrary: st)
  case Nil
  then show ?case by simp
next
  case (Cons g files)
  show ?case
  proof (cases "contents (a_fsys st) g")
    case None
    with Cons.prems show ?thesis by (simp add: readFileSync_def)
  next
    case (Some content)
    let ?s1 = "(a_stats st)\<lparr>filesScanned := filesScanned (a_stats st) + 1\<rparr>"
    obtain found st2 r where rc:
      "run_checks cs lvl content (parseFrontmatter content) ([], ?s1) = ((found, st2), r)"
      by (cases "run_checks cs lvl content (parseFrontmatter content) ([], ?s1)") auto
    have "sum_by_type ?s1 = sum_by_severity ?s1"
      using Cons.prems by (simp add: sum_by_type_def sum_by_severity_def)
    with run_checks_counts[OF rc] have i: "sum_by_type st2 = sum_by_severity st2" by simp
    show ?thesis
    proof (cases r)
      case (Some e)
      with \<open>contents (a_fsys st) g = Some content\<close> rc i show ?thesis
        by (simp add: readFileSync_def Let_def)
    next
      case None
      let ?st = "st\<lparr>a_stats :=
                       (if length found > 0 then
                          st2\<lparr>fileIssues := fileIssues st2 @
                            [FileIssues g
                               (if falsy (parseFrontmatter content (str ''title'')) then str ''(no title)''
                                else the (parseFrontmatter content (str ''title'')))
                               found]\<rparr>
                        else st2)\<rparr>"
      from None \<open>contents (a_fsys st) g = Some content\<close> rc
      have eq: "audit_loop cs lvl (g # files) st = audit_loop cs lvl files ?st"
        by (simp add: readFileSync_def Let_def)
      from i have "sum_by_type (a_stats ?st) = sum_by_severity (a_stats ?st)"
        by (simp add: sum_by_type_def sum_by_severity_def)
      from Cons.IH[OF this] show ?thesis unfolding eq .
    qed
  qed
qed

lemma run_checks_suppressed:
  "run_checks cs lvl content fm (found, st) = ((found', st'), r) \<Longrightarrow>
   (\<forall>i\<in>set found'. i \<in> set found \<or> lvl \<le> severityLevels (issue_severity i)) \<and>
   (\<forall>s. severityLevels s < lvl \<longrightarrow> issuesBySeverity st' s = issuesBySeverity st s) \<and>
   (\<forall>nm. (\<forall>c\<in>set cs. name c = nm \<longrightarrow> severityLevels (severity c) < lvl) \<longrightarrow>
      map_of (issuesByType st') nm = map_of (issuesByType st) nm) \<and>
   fileIssues st' = fileIssues st"
proof (induction cs arbitrary: found st)
  case Nil
  then show ?case by simp
next
  case (Cons c cs)
  show ?case
  proof (cases "severityLevels (severity c) < lvl \<or> \<not> check c content fm")
    case True
    with Cons.prems have "run_checks cs lvl content fm (found, st) = ((found', st'), r)"
      by (simp only: run_checks_skip)
    from Cons.IH[OF this] show ?thesis by auto
  next
    case False
    show ?thesis
    proof (cases "detail_of c content fm")
      case (Inl e)
      with False Cons.prems show ?thesis by (simp add: run_checks_throw del: run_checks.simps)
    next
      case (Inr d)
      let ?st = "st\<lparr>issuesByType := bump (name c) 1 (issuesByType st),
                   issuesBySeverity := (issuesBySeverity st)
                     (severity c := issuesBySeverity st (severity c) + 1)\<rparr>"
      from False Inr Cons.prems have
        "run_checks cs lvl content fm (found @ [Issue (name c) (severity c) d], ?st)
          = ((found', st'), r)" by (simp add: run_checks_push del: run_checks.simps)
      from Cons.IH[OF this] False show ?thesis
        by (auto simp: bump_other)
    qed
  qed
qed

lemma run_checks_none_fire:
  "(\<forall>c\<in>set cs. check c content fm \<longrightarrow> severityLevels (severity c) < lvl) \<Longrightarrow>
   run_checks cs lvl content fm (found, st) = ((found, st), None)"
  by (induction cs) auto

lemma audit_loop_suppressed:
  "suppressed cs lvl (a_stats st) \<Longrightarrow> suppressed cs lvl (a_stats (fst (audit_loop cs lvl files st)))"
proof (induction files arbitrary: st)
  case Nil
  then show ?case by simp
next
  case (Cons g files)
  show ?case
  proof (cases "contents (a_fsys st) g")
    case None
    with Cons.prems show ?thesis by (simp add: readFileSync_def)
  next
    case (Some content)
    let ?s1 = "(a_stats st)\<lparr>filesScanned := filesScanned (a_stats st) + 1\<rparr>"
    obtain found st2 r where rc:
      "run_checks cs lvl content (parseFrontmatter content) ([], ?s1) = ((found, st2), r)"
      by (cases "run_checks cs lvl content (parseFrontmatter content) ([], ?s1)") auto
    from run_checks_suppressed[OF rc] Cons.prems
    have f: "\<forall>i\<in>set found. lvl \<le> severityLevels (issue_severity i)"
      and i: "suppressed cs lvl st2"
      by (auto simp: suppressed_def)
    show ?thesis
    proof (cases r)
      case (Some e)
      with \<open>contents (a_fsys st) g = Some content\<close> rc i show ?thesis
        by (simp add: readFileSync_def Let_def)
    next
      case None
      let ?st = "st\<lparr>a_stats :=
                       (if length found > 0 then
                          st2\<lparr>fileIssues := fileIssues st2 @
                            [FileIssues g
                               (if falsy (parseFrontmatter content (str ''title'')) then str ''(no title)''
                                else the (parseFrontmatter content (str ''title'')))
                               found]\<rparr>
                        else st2)\<rparr>"
      from None \<open>contents (a_fsys st) g = Some content\<close> rc
      have eq: "audit_loop cs lvl (g # files) st = audit_loop cs lvl files ?st"
        by (simp add: readFileSync_def Let_def)
      from i f have "suppressed cs lvl (a_stats ?st)"
        by (auto simp: suppressed_def)
      from Cons.IH[OF this] show ?thesis unfolding eq .
    qed
  qed
qed

lemma names_distinct:
  "c \<in> set SEO_CHECKS \<Longrightarrow> c' \<in> set SEO_CHECKS \<Longrightarrow> name c' = name c \<Longrightarrow> severity c' = severity c"
  by (auto simp: SEO_CHECKS_def)

lemma audit_loop_single_clean:
  assumes "contents (a_fsys st) f = Some content"
    and "\<forall>c\<in>set cs. check c content (parseFrontmatter content) \<longrightarrow> severityLevels (severity c) < lvl"
  shows "audit_loop cs lvl [f] st =
     (st\<lparr>a_stats := (a_stats st)\<lparr>filesScanned := filesScanned (a_stats st) + 1\<rparr>\<rparr>, None)"
  using assms(1) run_checks_none_fire[OF assms(2)]
  by (simp add: readFileSync_def Let_def)

lemma fm_docw:
  "parseFrontmatter docw = [str ''title'' \<mapsto> str ''T'', str ''description'' \<mapsto> str ''D'',
     str ''ogUrl'' \<mapsto> str ''u'']"
  by (simp add: docw_def fm_ev audit_pats ev)

lemma checks_docw:
  "map (\<lambda>c. check c docw (parseFrontmatter docw)) SEO_CHECKS =
     [False, False, False, False, False, True, False, True, False, False, False]"
  unfolding fm_docw
  by (simp add: SEO_CHECKS_def docw_def check_ev audit_pats ev)

lemma digits_1: "digits (Suc 0) = [49]"
  by (subst digits.simps) simp

lemma run_docw:
  "run_checks SEO_CHECKS (minLevel_of ''info'') docw (parseFrontmatter docw) ([], st) =
     (([Issue ''Description Too Short'' Warning (Some (str ''1 chars (recommended: 120-160)'')),
        Issue ''Missing OG Image'' Warning None],
       st\<lparr>issuesByType := bump ''Missing OG Image'' 1
             (bump ''Description Too Short'' 1 (issuesByType st)),
          issuesBySeverity := (issuesBySeverity st)(Warning := issuesBySeverity st Warning + 2)\<rparr>),
      None)"
  unfolding fm_docw
  by (simp add: detail_of_def digits_1 minLevel_of_def
      SEO_CHECKS_def docw_def check_ev audit_pats ev description_length_details_def
      del: digits.simps)

lemma unfiltered_docw:
  "fileIssues (a_stats (fst (audit_main ''info'' [''w/index.html''] disk_w))) =
     [FileIssues ''w/index.html'' (str ''T'')
        [Issue ''Description Too Short'' Warning (Some (str ''1 chars (recommended: 120-160)'')),
         Issue ''Missing OG Image'' Warning None]]"
  by (simp add: audit_main_def disk_w_def readFileSync_def run_docw Let_def
         initial_audit_stats_def)
     (simp add: fm_docw falsy_def str_def)




section \<open>Properties of particular patterns\<close>

text \<open>
  What the matcher does on a literal text, on \<open>[\s\S]*?\<close> followed by a literal, on the
  header pattern, and on the two patterns of the rule on truncated descriptions.
\<close>

lemma cls_all [simp]: "cls_match ic (In [S, NS]) x"
  by (simp add: item_match_def)

lemma m_lit:
  "m False (lit cs @ p) b s = Some res \<longleftrightarrow>
     (\<exists>r. s = str cs @ r \<and> m False p (b \<and> cs = []) r = Some res)"
proof (induction cs arbitrary: b s)
  case Nil
  then show ?case by (simp add: lit_def str_def)
next
  case (Cons c cs)
  show ?case
  proof (cases s)
    case Nil
    then show ?thesis by (simp add: lit_def str_def)
  next
    case (Cons x xs)
    with Cons.IH[of False xs] show ?thesis
      by (auto simp: lit_def str_def item_match_def)
  qed
qed

lemma m_any_lazy:
  "m False (any_lazy # p) b s = Some res \<longleftrightarrow>
     (\<exists>pre r. s = pre @ r \<and> m False p (b \<and> pre = []) r = Some res \<and>
        (\<forall>pre' r'. s = pre' @ r' \<longrightarrow> length pre' < length pre \<longrightarrow>
           m False p (b \<and> pre' = []) r' = None))"
proof (induction s arbitrary: b)
  case Nil
  then show ?case by (auto simp: any_lazy_def)
next
  case (Cons x xs)
  show ?case
  proof (cases "m False p b (x # xs)")
    case (Some r0)
    have "m False (any_lazy # p) b (x # xs) = Some r0"
      using Some by (simp add: any_lazy_def item_match_def)
    moreover have "(\<exists>pre r. x # xs = pre @ r \<and> m False p (b \<and> pre = []) r = Some res \<and>
        (\<forall>pre' r'. x # xs = pre' @ r' \<longrightarrow> length pre' < length pre \<longrightarrow>
           m False p (b \<and> pre' = []) r' = None)) \<longleftrightarrow> r0 = res"
    proof
      assume "\<exists>pre r. x # xs = pre @ r \<and> m False p (b \<and> pre = []) r = Some res \<and>
        (\<forall>pre' r'. x # xs = pre' @ r' \<longrightarrow> length pre' < length pre \<longrightarrow>
           m False p (b \<and> pre' = []) r' = None)"
      then obtain pre r where s: "x # xs = pre @ r" and m: "m False p (b \<and> pre = []) r = Some res"
        and mn: "\<forall>pre' r'. x # xs = pre' @ r' \<longrightarrow> length pre' < length pre \<longrightarrow>
           m False p (b \<and> pre' = []) r' = None" by blast
      have "pre = []"
      proof (rule ccontr)
        assume "pre \<noteq> []"
        with mn[rule_format, of "[]" "x # xs"] Some show False by simp
      qed
      with s m Some show "r0 = res" by simp
    next
      assume "r0 = res"
      with Some show "\<exists>pre r. x # xs = pre @ r \<and> m False p (b \<and> pre = []) r = Some res \<and>
        (\<forall>pre' r'. x # xs = pre' @ r' \<longrightarrow> length pre' < length pre \<longrightarrow>
           m False p (b \<and> pre' = []) r' = None)"
        by (intro exI[of _ "[]"] exI[of _ "x # xs"]) simp
    qed
    ultimately show ?thesis by auto
  next
    case None
    have e: "m False (any_lazy # p) b (x # xs) = m False (any_lazy # p) False xs"
      using None by (simp add: any_lazy_def item_match_def)
    have "(\<exists>pre r. x # xs = pre @ r \<and> m False p (b \<and> pre = []) r = Some res \<and>
        (\<forall>pre' r'. x # xs = pre' @ r' \<longrightarrow> length pre' < length pre \<longrightarrow>
           m False p (b \<and> pre' = []) r' = None)) \<longleftrightarrow>
      (\<exists>pre r. xs = pre @ r \<and> m False p (False \<and> pre = []) r = Some res \<and>
        (\<forall>pre' r'. xs = pre' @ r' \<longrightarrow> length pre' < length pre \<longrightarrow>
           m False p (False \<and> pre' = []) r' = None))" (is "?L \<longleftrightarrow> ?R")
    proof
      assume ?L
      then obtain pre r where s: "x # xs = pre @ r" and m: "m False p (b \<and> pre = []) r = Some res"
        and mn: "\<forall>pre' r'. x # xs = pre' @ r' \<longrightarrow> length pre' < length pre \<longrightarrow>
           m False p (b \<and> pre' = []) r' = None" by blast
      from s m None obtain pre0 where p: "pre = x # pre0" "xs = pre0 @ r"
        by (cases pre) auto
      have "\<forall>pre' r'. xs = pre' @ r' \<longrightarrow> length pre' < length pre0 \<longrightarrow>
           m False p False r' = None"
      proof (intro allI impI)
        fix pre' r' assume "xs = pre' @ r'" "length pre' < length pre0"
        with mn[rule_format, of "x # pre'" r'] p show "m False p False r' = None" by simp
      qed
      with p m show ?R by auto
    next
      assume ?R
      then obtain pre r where s: "xs = pre @ r" and m: "m False p False r = Some res"
        and mn: "\<forall>pre' r'. xs = pre' @ r' \<longrightarrow> length pre' < length pre \<longrightarrow>
           m False p False r' = None" by auto
      have "\<forall>pre' r'. x # xs = pre' @ r' \<longrightarrow> length pre' < length (x # pre) \<longrightarrow>
           m False p (b \<and> pre' = []) r' = None"
      proof (intro allI impI)
        fix pre' r' assume a: "x # xs = pre' @ r'" "length pre' < length (x # pre)"
        show "m False p (b \<and> pre' = []) r' = None"
        proof (cases pre')
          case Nil
          with a None show ?thesis by simp
        next
          case (Cons y ys)
          with a mn[rule_format, of ys r'] show ?thesis by simp
        qed
      qed
      with s m show ?L
        by (intro exI[of _ "x # pre"] exI[of _ r]) simp
    qed
    with e Cons.IH[of False] show ?thesis by simp
  qed
qed

lemma first_alt_single: "first_alt ic [a] b s = m ic a b s"
  by (cases "m ic a b s") simp_all

lemma m_Bos: "m ic (Bos # r) True s = m ic r True s"
  by simp

lemma m_Bos_False: "m ic (Bos # r) False s = None"
  by simp

lemma m_Mark: "m ic (Mark # r) b s = map_option (\<lambda>(ms, e). (s # ms, e)) (m ic r b s)"
  by simp

lemma m_mark_lit:
  "m False (Mark # lit cs) b s = Some res \<longleftrightarrow> (\<exists>e. s = str cs @ e \<and> res = ([s], e))"
  (is "?L \<longleftrightarrow> ?R")
proof -
  have f: "m False (lit cs) b s = Some r0 \<longleftrightarrow> (\<exists>e. s = str cs @ e \<and> r0 = ([], e))" for r0
    using m_lit[of cs "[]" b s r0] by auto
  show ?thesis
  proof
    assume ?L
    then obtain r0 where r0: "m False (lit cs) b s = Some r0" "res = (s # fst r0, snd r0)"
      by (auto simp: m_Mark case_prod_beta simp del: m.simps)
    from r0(1) obtain e where "s = str cs @ e" "r0 = ([], e)" unfolding f by blast
    with r0(2) show ?R by simp
  next
    assume ?R
    then obtain e where e: "s = str cs @ e" "res = ([s], e)" by blast
    then have "m False (lit cs) b s = Some ([], e)" unfolding f by blast
    with e show ?L by (simp add: m_Mark del: m.simps)
  qed
qed

lemma m_lazy_until:
  "m False (any_lazy # Mark # lit cs) b s = Some res \<longleftrightarrow>
     (\<exists>pre e. s = pre @ str cs @ e \<and> res = ([str cs @ e], e) \<and>
        (\<forall>pre' e'. s = pre' @ str cs @ e' \<longrightarrow> length pre \<le> length pre'))"
  (is "?L \<longleftrightarrow> ?R")
proof
  assume ?L
  then obtain pre r where s: "s = pre @ r"
    and m: "m False (Mark # lit cs) (b \<and> pre = []) r = Some res"
    and mn: "\<forall>pre' r'. s = pre' @ r' \<longrightarrow> length pre' < length pre \<longrightarrow>
           m False (Mark # lit cs) (b \<and> pre' = []) r' = None"
    unfolding m_any_lazy by blast
  from m obtain e where e: "r = str cs @ e" "res = ([r], e)" unfolding m_mark_lit by blast
  have "\<forall>pre' e'. s = pre' @ str cs @ e' \<longrightarrow> length pre \<le> length pre'"
  proof (intro allI impI, rule ccontr)
    fix pre' e' assume a: "s = pre' @ str cs @ e'" "\<not> length pre \<le> length pre'"
    then have "m False (Mark # lit cs) (b \<and> pre' = []) (str cs @ e') = None"
      using mn by auto
    moreover have "m False (Mark # lit cs) (b \<and> pre' = []) (str cs @ e')
        = Some ([str cs @ e'], e')"
      unfolding m_mark_lit by simp
    ultimately show False by simp
  qed
  with s e show ?R by blast
next
  assume ?R
  then obtain pre e where s: "s = pre @ str cs @ e" and r: "res = ([str cs @ e], e)"
    and mn: "\<forall>pre' e'. s = pre' @ str cs @ e' \<longrightarrow> length pre \<le> length pre'" by blast
  have 1: "m False (Mark # lit cs) (b \<and> pre = []) (str cs @ e) = Some res"
    unfolding m_mark_lit using r by simp
  have 2: "\<forall>pre' r'. s = pre' @ r' \<longrightarrow> length pre' < length pre \<longrightarrow>
           m False (Mark # lit cs) (b \<and> pre' = []) r' = None"
  proof (intro allI impI)
    fix pre' r' assume a: "s = pre' @ r'" "length pre' < length pre"
    show "m False (Mark # lit cs) (b \<and> pre' = []) r' = None"
    proof (cases "m False (Mark # lit cs) (b \<and> pre' = []) r'")
      case (Some r0)
      then obtain e' where "r' = str cs @ e'" unfolding m_mark_lit by blast
      with a mn show ?thesis by auto
    qed simp
  qed
  from s 1 2 show ?L unfolding m_any_lazy by blast
qed

lemma header_here:
  "match_here header_re True s = Some res \<longleftrightarrow>
     (\<exists>y e. s = str ''---\<newline>'' @ y @ str ''\<newline>---'' @ e \<and>
        res = ([y @ str ''\<newline>---'' @ e, str ''\<newline>---'' @ e], e) \<and>
        (\<forall>y' e'. s = str ''---\<newline>'' @ y' @ str ''\<newline>---'' @ e' \<longrightarrow> length y \<le> length y'))"
  (is "?L \<longleftrightarrow> ?R")
proof -
  let ?q = "any_lazy # Mark # lit ''\<newline>---''"
  have h: "match_here header_re True s = m False (lit ''---\<newline>'' @ (Mark # ?q)) True s"
    by (simp add: match_here_def header_re_def m_Bos del: m.simps split: option.splits)
  have a: "?L \<longleftrightarrow> (\<exists>r. s = str ''---\<newline>'' @ r \<and> m False (Mark # ?q) False r = Some res)"
    unfolding h m_lit by simp
  have b: "m False (Mark # ?q) False r = Some res \<longleftrightarrow>
      (\<exists>y e. r = y @ str ''\<newline>---'' @ e \<and> res = ([r, str ''\<newline>---'' @ e], e) \<and>
        (\<forall>y' e'. r = y' @ str ''\<newline>---'' @ e' \<longrightarrow> length y \<le> length y'))"
    (is "?A \<longleftrightarrow> ?B") for r
  proof
    assume ?A
    then obtain r0 where r0: "m False ?q False r = Some r0" "res = (r # fst r0, snd r0)"
      by (auto simp: m_Mark case_prod_beta simp del: m.simps)
    from r0(1) obtain y e where "r = y @ str ''\<newline>---'' @ e" "r0 = ([str ''\<newline>---'' @ e], e)"
      "\<forall>y' e'. r = y' @ str ''\<newline>---'' @ e' \<longrightarrow> length y \<le> length y'"
      unfolding m_lazy_until by blast
    with r0(2) show ?B by auto
  next
    assume ?B
    then obtain y e where ye: "r = y @ str ''\<newline>---'' @ e" "res = ([r, str ''\<newline>---'' @ e], e)"
      "\<forall>y' e'. r = y' @ str ''\<newline>---'' @ e' \<longrightarrow> length y \<le> length y'" by blast
    then have "m False ?q False r = Some ([str ''\<newline>---'' @ e], e)"
      unfolding m_lazy_until by blast
    with ye(2) show ?A by (simp add: m_Mark del: m.simps)
  qed
  show ?thesis unfolding a b by auto
qed

lemma header_not_later: "regexp_exec header_re False s = None"
  by (induction s) (simp_all add: match_here_def header_re_def)

lemma regexp_exec_header:
  "regexp_exec header_re True s =
     map_option (\<lambda>(ms, e). (s, ms, e)) (match_here header_re True s)"
  by (cases s) (auto simp: header_not_later split: option.splits)

lemma header_block_iff:
  "header_block content = Some y \<longleftrightarrow>
     (\<exists>e. normalizedContent content = str ''---\<newline>'' @ y @ str ''\<newline>---'' @ e \<and>
        (\<forall>y' e'. normalizedContent content = str ''---\<newline>'' @ y' @ str ''\<newline>---'' @ e'
           \<longrightarrow> length y \<le> length y'))"
  (is "?L \<longleftrightarrow> ?R")
proof
  assume ?L
  then obtain ms e where h: "match_here header_re True (normalizedContent content) = Some (ms, e)"
    and g: "\<exists>rest. groups ms = y # rest"
    by (auto simp: header_block_def match_first_def regexp_exec_header
        split: option.splits list.splits)
  from h obtain y0 e0 where n: "normalizedContent content = str ''---\<newline>'' @ y0 @ str ''\<newline>---'' @ e0"
    and r: "(ms, e) = ([y0 @ str ''\<newline>---'' @ e0, str ''\<newline>---'' @ e0], e0)"
    and mn: "\<forall>y' e'. normalizedContent content = str ''---\<newline>'' @ y' @ str ''\<newline>---'' @ e'
           \<longrightarrow> length y0 \<le> length y'"
    unfolding header_here by blast
  from r g have "y = y0" by auto
  with n mn show ?R by blast
next
  assume ?R
  then obtain e where n: "normalizedContent content = str ''---\<newline>'' @ y @ str ''\<newline>---'' @ e"
    and mn: "\<forall>y' e'. normalizedContent content = str ''---\<newline>'' @ y' @ str ''\<newline>---'' @ e'
           \<longrightarrow> length y \<le> length y'" by blast
  then have "match_here header_re True (normalizedContent content)
      = Some ([y @ str ''\<newline>---'' @ e, str ''\<newline>---'' @ e], e)"
    unfolding header_here by blast
  then show ?L
    by (simp add: header_block_def match_first_def regexp_exec_header)
qed

lemma crlf_here:
  "match_here crlf_re b (x # xs) =
     (if x = 13 then (case xs of [] \<Rightarrow> None | z # e \<Rightarrow> if z = 10 then Some ([], e) else None)
      else None)"
  by (auto simp: match_here_def crlf_re_def item_match_def split: list.splits)

lemma crlf_head:
  assumes "snd (gscan crlf_re [10] b 0 s) = y # r" and "y \<noteq> 10" and "y \<noteq> 13"
  shows "\<exists>s'. s = y # s' \<and> r = snd (gscan crlf_re [10] False 0 s')"
proof (cases s)
  case Nil
  with assms show ?thesis by (simp add: match_here_def crlf_re_def)
next
  case (Cons x xs)
  with assms show ?thesis
    by (auto simp: crlf_here case_prod_beta Let_def split: if_splits list.splits)
qed

lemma normalize_dashes:
  assumes "normalizedContent content = 45 # 45 # 45 # r"
  shows "\<exists>c. content = 45 # 45 # 45 # c"
proof -
  from assms have "snd (gscan crlf_re [10] True 0 content) = 45 # 45 # 45 # r"
    by (simp add: normalizedContent_def replace_global_def)
  from crlf_head[OF this] obtain s1 where
    1: "content = 45 # s1" "45 # 45 # r = snd (gscan crlf_re [10] False 0 s1)" by auto
  from crlf_head[OF 1(2)[symmetric]] obtain s2 where
    2: "s1 = 45 # s2" "45 # r = snd (gscan crlf_re [10] False 0 s2)" by auto
  from crlf_head[OF 2(2)[symmetric]] obtain s3 where
    3: "s2 = 45 # s3" by auto
  from 1 2 3 show ?thesis by simp
qed

lemma no_marker_no_header:
  assumes "take 3 content \<noteq> str ''---''"
  shows "header_block content = None"
proof (cases "header_block content")
  case (Some y)
  then obtain e where "normalizedContent content = str ''---\<newline>'' @ y @ str ''\<newline>---'' @ e"
    unfolding header_block_iff by blast
  then have "normalizedContent content = 45 # 45 # 45 # (10 # y @ str ''\<newline>---'' @ e)"
    by (simp add: str_def)
  from normalize_dashes[OF this] assms show ?thesis by (auto simp: str_def)
qed simp

lemma regexp_exec_iff:
  "regexp_exec re b s \<noteq> None \<longleftrightarrow>
     (\<exists>pre r. s = pre @ r \<and> match_here re (b \<and> pre = []) r \<noteq> None)"
proof (induction s arbitrary: b)
  case Nil
  then show ?case by (auto split: option.splits)
next
  case (Cons x xs)
  show ?case
  proof (cases "match_here re b (x # xs)")
    case (Some r0)
    then have "regexp_exec re b (x # xs) \<noteq> None" by (auto split: prod.splits)
    moreover from Some have "\<exists>pre r. x # xs = pre @ r \<and> match_here re (b \<and> pre = []) r \<noteq> None"
      by (intro exI[of _ "[]"] exI[of _ "x # xs"]) simp
    ultimately show ?thesis by blast
  next
    case None
    have "(\<exists>pre r. x # xs = pre @ r \<and> match_here re (b \<and> pre = []) r \<noteq> None) \<longleftrightarrow>
          (\<exists>pre r. xs = pre @ r \<and> match_here re (False \<and> pre = []) r \<noteq> None)"
      (is "?A \<longleftrightarrow> ?B")
    proof
      assume ?A
      then obtain pre r where p: "x # xs = pre @ r" "match_here re (b \<and> pre = []) r \<noteq> None"
        by blast
      with None obtain pre0 where "pre = x # pre0" "xs = pre0 @ r" by (cases pre) auto
      with p show ?B by auto
    next
      assume ?B
      then obtain pre r where "xs = pre @ r" "match_here re False r \<noteq> None" by auto
      then show ?A by (intro exI[of _ "x # pre"] exI[of _ r]) simp
    qed
    with None Cons.IH[of False] show ?thesis by simp
  qed
qed

lemma terminal_here:
  "match_here terminal_re b r \<noteq> None \<longleftrightarrow> (\<exists>x. r = [x] \<and> x \<in> {46, 33, 63, 34})"
  by (cases r) (auto simp: match_here_def terminal_re_def item_match_def)

lemma test_terminal: "test terminal_re s \<longleftrightarrow> ends_with_terminal s"
proof -
  have "test terminal_re s \<longleftrightarrow> (\<exists>pre x. s = pre @ [x] \<and> x \<in> {46, 33, 63, 34})"
    unfolding test_def regexp_exec_iff terminal_here by blast
  also have "\<dots> \<longleftrightarrow> ends_with_terminal s"
    unfolding ends_with_terminal_def
    by (cases s rule: rev_cases) auto
  finally show ?thesis .
qed

lemma rep_word_0:
  "m False [Rep (In [W]) 0 (Some 0) True, Eos] b f \<noteq> None \<longleftrightarrow> f = []"
  by (cases f) auto

lemma rep_word_1:
  "m False [Rep (In [W]) 0 (Some (Suc 0)) True, Eos] b f \<noteq> None \<longleftrightarrow>
     length f \<le> 1 \<and> list_all is_word f"
proof (cases f)
  case Nil
  then show ?thesis by simp
next
  case (Cons a g)
  with rep_word_0[of False g] show ?thesis
    by (auto simp: item_match_def split: option.splits)
qed

lemma rep_word_2:
  "m False [Rep (In [W]) 0 (Some 2) True, Eos] b f \<noteq> None \<longleftrightarrow>
     length f \<le> 2 \<and> list_all is_word f"
proof (cases f)
  case Nil
  then show ?thesis by simp
next
  case (Cons a g)
  with rep_word_1[of False g] show ?thesis
    by (auto simp: item_match_def split: option.splits)
qed

lemma rep_word_3:
  "m False [Rep (In [W]) 1 (Some 3) True, Eos] b f \<noteq> None \<longleftrightarrow>
     1 \<le> length f \<and> length f \<le> 3 \<and> list_all is_word f"
proof (cases f)
  case Nil
  then show ?thesis by simp
next
  case (Cons a g)
  with rep_word_2[of False g] show ?thesis
    by (auto simp: item_match_def split: option.splits)
qed

lemma short_fragment_here:
  "match_here short_fragment_re b r \<noteq> None \<longleftrightarrow>
     (\<exists>w f. r = w # f \<and> is_space w \<and> 1 \<le> length f \<and> length f \<le> 3 \<and> list_all is_word f)"
proof (cases r)
  case Nil
  then show ?thesis by (simp add: match_here_def short_fragment_re_def)
next
  case (Cons w f)
  have "match_here short_fragment_re b (w # f) =
      (if is_space w then m False [Rep (In [W]) 1 (Some 3) True, Eos] False f else None)"
    by (simp add: match_here_def short_fragment_re_def item_match_def split: option.splits
        del: m.simps(5))
  with Cons rep_word_3[of False f] show ?thesis by auto
qed

lemma test_short_fragment: "test short_fragment_re s \<longleftrightarrow> ends_with_short_fragment s"
  unfolding test_def regexp_exec_iff short_fragment_here ends_with_short_fragment_def by blast

lemma endsWith_iff: "endsWith s t \<longleftrightarrow> (\<exists>p. s = p @ t)"
proof
  assume "endsWith s t"
  then have "s = take (length s - length t) s @ t"
    by (metis append_take_drop_id endsWith_def)
  then show "\<exists>p. s = p @ t" ..
next
  assume "\<exists>p. s = p @ t"
  then show "endsWith s t" by (auto simp: endsWith_def)
qed

lemma truncated_iff:
  "fm (str ''description'') = Some d \<Longrightarrow> truncated_description content fm \<longleftrightarrow> spec_truncated d"
  by (auto simp: truncated_description_def spec_truncated_def falsy_def Let_def
      test_terminal test_short_fragment endsWith_iff ends_with_ellipsis_def trim_def)

lemma examples_not_truncated:
  "\<not> truncated_description content [str ''description'' \<mapsto> example_thing]"
  "\<not> truncated_description content [str ''description'' \<mapsto> example_things]"
  by (simp_all add: example_thing_def example_things_def truncated_description_def falsy_def
      trim_def str_def is_space_def)

lemma truncated_entry:
  "SEO_CHECKS ! 4 = \<lparr>name = ''Truncated Description'', check = truncated_description,
      severity = Warning, details = Some truncated_description_details\<rparr>"
  by (simp add: SEO_CHECKS_def)

lemma example_cut_fires:
  "truncated_description [] [str ''description'' \<mapsto> example_cut]"
  by (simp add: example_cut_def truncated_description_def falsy_def trim_def endsWith_def
      short_fragment_re_def terminal_re_def ev)

lemma fm_doc_hello:
  "parseFrontmatter doc_hello =
     [str ''title'' \<mapsto> str ''Hello'', str ''description'' \<mapsto> str ''World'']"
  by (simp add: doc_hello_def fm_ev audit_pats ev)

lemma crlf_skip:
  "x \<noteq> 13 \<Longrightarrow> snd (gscan crlf_re [10] b 0 (x # xs)) = x # snd (gscan crlf_re [10] False 0 xs)"
  by (simp add: crlf_here case_prod_beta)

lemma normalized_hello:
  "normalizedContent (doc_hello @ rest) = doc_hello @ snd (gscan crlf_re [10] False 0 rest)"
  by (simp add: normalizedContent_def replace_global_def doc_hello_def str_def crlf_skip
      del: gscan.simps)

lemma fm_doc_hello_any:
  "parseFrontmatter (doc_hello @ rest) =
     [str ''title'' \<mapsto> str ''Hello'', str ''description'' \<mapsto> str ''World'']"
  unfolding parseFrontmatter_def header_block_def normalized_hello
  by (simp add: doc_hello_def match_first_def keyMatch_def set_prop_def audit_pats ev)

lemma header_doc_split: "header_block doc_split = Some (str ''title: A'')"
  by (simp add: doc_split_def fm_ev audit_pats ev)

lemma normalize_doc_split:
  "normalizedContent doc_split =
     str ''---\<newline>'' @ str ''title: A\<newline>---x\<newline>description: B'' @ str ''\<newline>---'' @ str ''\<newline>''"
  by (simp add: doc_split_def normalizedContent_def audit_pats ev)

section \<open>The cleanup transform only deletes\<close>

text \<open>
  C10. The document that \<open>cleanupContent\<close> returns is never longer than its input, in
  both scripts; and when no pattern of the table matches the input, the returned document
  is the input itself, the total of removals is zero and the statistics are unchanged.
\<close>

theorem cleanupContent_only_deletes:
  "length (fst (fst (cleanupContent content st))) \<le> length content \<and>
   length (fst (fst (cleanupContent_4 content st))) \<le> length content \<and>
   ((\<forall>(nm, p)\<in>set REMOVAL_PATTERNS. \<not> test p content) \<longrightarrow>
      cleanupContent content st = ((content, 0), st)) \<and>
   ((\<forall>(nm, p)\<in>set REMOVAL_PATTERNS_4. \<not> test p content) \<longrightarrow>
      cleanupContent_4 content st = ((content, 0), st))"
  unfolding cleanupContent_def cleanupContent_4_def
  using cleanupContent_with_le cleanupContent_with_no_match by blast

theorem cleanupContent_only_deletes_witness:
  "list_all (\<lambda>(nm, p). \<not> test p (str ''<p>hi</p>'')) REMOVAL_PATTERNS \<and>
   list_all (\<lambda>(nm, p). \<not> test p (str ''<p>hi</p>'')) REMOVAL_PATTERNS_4 \<and>
   cleanupContent (str ''<p>hi</p>'') initial_cleanup_stats
     = ((str ''<p>hi</p>'', 0), initial_cleanup_stats) \<and>
   cleanupContent_4 (str ''<p>hi</p>'') initial_cleanup_stats
     = ((str ''<p>hi</p>'', 0), initial_cleanup_stats)"
proof -
  have a: "list_all (\<lambda>(nm, p). \<not> test p (str ''<p>hi</p>'')) REMOVAL_PATTERNS"
    by (simp add: pats ev)
  then have b: "list_all (\<lambda>(nm, p). \<not> test p (str ''<p>hi</p>'')) REMOVAL_PATTERNS_4"
    by (simp add: REMOVAL_PATTERNS_def)
  from a b cleanupContent_only_deletes[of "str ''<p>hi</p>''" initial_cleanup_stats]
  show ?thesis by (simp add: list_all_iff)
qed

section \<open>Dry run and real run\<close>

text \<open>
  C3. For every file and every state, \<open>processFile\<close> in dry-run mode and in real mode
  leave the same statistics (files scanned, files modified, removals per rule) and print
  the same lines (the total of removals of the file among them). The dry run leaves the
  file system as it is. When the file is read as \<open>content\<close>, the real run writes the
  transformed document back exactly when something was removed (and the file can be
  written). This holds for both scripts.
\<close>

theorem dry_run_equivalence:
  "stats (fst (processFile fp True st)) = stats (fst (processFile fp False st)) \<and>
   console (fst (processFile fp True st)) = console (fst (processFile fp False st)) \<and>
   fsys (fst (processFile fp True st)) = fsys st \<and>
   stats (fst (processFile_4 fp True st)) = stats (fst (processFile_4 fp False st)) \<and>
   console (fst (processFile_4 fp True st)) = console (fst (processFile_4 fp False st)) \<and>
   fsys (fst (processFile_4 fp True st)) = fsys st \<and>
   (contents (fsys st) fp = Some content \<longrightarrow>
    fst (cleanupContent content s) = (modified, totalRemovals) \<longrightarrow>
      fsys (fst (processFile fp False st)) =
        (if 0 < totalRemovals \<and> writable (fsys st) fp
         then (fsys st)\<lparr>contents := (contents (fsys st))(fp \<mapsto> modified)\<rparr>
         else fsys st) \<and>
      removalsByType (stats (fst (processFile fp True st))) =
        removalsByType (snd (cleanupContent content (stats st))) \<and>
      console (fst (processFile fp True st)) =
        console st @ (if 0 < totalRemovals then [Removed fp totalRemovals] else [])) \<and>
   (contents (fsys st) fp = Some content \<longrightarrow>
    fst (cleanupContent_4 content s) = (modified4, totalRemovals4) \<longrightarrow>
      fsys (fst (processFile_4 fp False st)) =
        (if 0 < totalRemovals4 \<and> writable (fsys st) fp
         then (fsys st)\<lparr>contents := (contents (fsys st))(fp \<mapsto> modified4)\<rparr>
         else fsys st) \<and>
      removalsByType (stats (fst (processFile_4 fp True st))) =
        removalsByType (snd (cleanupContent_4 content (stats st))) \<and>
      console (fst (processFile_4 fp True st)) =
        console st @ (if 0 < totalRemovals4 then [Removed fp totalRemovals4] else []))"
  unfolding processFile_def processFile_4_def cleanupContent_def cleanupContent_4_def
  using processFile_with_all[of REMOVAL_PATTERNS fp st content s modified totalRemovals]
    processFile_with_all[of REMOVAL_PATTERNS_4 fp st content s modified4 totalRemovals4]
  by blast

theorem dry_run_equivalence_witness:
  "contents (fsys start) ''p/index.html'' = Some page \<and>
   fst (cleanupContent page initial_cleanup_stats) = (str ''ab'', 1) \<and>
   fst (cleanupContent_4 page initial_cleanup_stats) = (str ''ab'', 1) \<and>
   fsys (fst (processFile ''p/index.html'' True start)) = disk \<and>
   fsys (fst (processFile ''p/index.html'' False start)) =
     disk\<lparr>contents := (contents disk)(''p/index.html'' \<mapsto> str ''ab'')\<rparr> \<and>
   fsys (fst (processFile_4 ''p/index.html'' False start)) =
     disk\<lparr>contents := (contents disk)(''p/index.html'' \<mapsto> str ''ab'')\<rparr> \<and>
   removalsByType (stats (fst (processFile ''p/index.html'' True start))) =
     [(''Comments Section'', 1)] \<and>
   removalsByType (stats (fst (processFile ''p/index.html'' False start))) =
     [(''Comments Section'', 1)] \<and>
   console (fst (processFile ''p/index.html'' False start)) = [Removed ''p/index.html'' 1]"
proof -
  have c: "contents (fsys start) ''p/index.html'' = Some page"
    by (simp add: start_def disk_def)
  have w: "writable (fsys start) ''p/index.html''" "fsys start = disk" "console start = []"
    "stats start = initial_cleanup_stats"
    by (simp_all add: start_def disk_def)
  have e: "fst (cleanupContent page initial_cleanup_stats) = (str ''ab'', 1)"
    by (simp add: cleanupContent_def cleanup_page)
  have e4: "fst (cleanupContent_4 page initial_cleanup_stats) = (str ''ab'', 1)"
    by (simp add: cleanupContent_4_def cleanup_page_4)
  have r: "removalsByType (snd (cleanupContent page initial_cleanup_stats)) =
      [(''Comments Section'', 1)]"
    by (simp add: cleanupContent_def cleanup_page)
  note t = dry_run_equivalence[of "''p/index.html''" start page initial_cleanup_stats
      "str ''ab''" 1 "str ''ab''" 1]
  from t have s: "stats (fst (processFile ''p/index.html'' True start)) =
      stats (fst (processFile ''p/index.html'' False start))"
    and k: "console (fst (processFile ''p/index.html'' True start)) =
      console (fst (processFile ''p/index.html'' False start))"
    by blast+
  from t have f0: "fsys (fst (processFile ''p/index.html'' True start)) = fsys start"
    by blast
  from t c e have a: "fsys (fst (processFile ''p/index.html'' False start)) =
        (if (0::nat) < 1 \<and> writable (fsys start) ''p/index.html''
         then (fsys start)\<lparr>contents := (contents (fsys start))(''p/index.html'' \<mapsto> str ''ab'')\<rparr>
         else fsys start)"
      and b: "removalsByType (stats (fst (processFile ''p/index.html'' True start))) =
        removalsByType (snd (cleanupContent page (stats start)))"
      and d: "console (fst (processFile ''p/index.html'' True start)) =
        console start @ (if (0::nat) < 1 then [Removed ''p/index.html'' 1] else [])"
    by blast+
  from t c e4 have a4: "fsys (fst (processFile_4 ''p/index.html'' False start)) =
        (if (0::nat) < 1 \<and> writable (fsys start) ''p/index.html''
         then (fsys start)\<lparr>contents := (contents (fsys start))(''p/index.html'' \<mapsto> str ''ab'')\<rparr>
         else fsys start)"
    by blast
  from f0 w have f: "fsys (fst (processFile ''p/index.html'' True start)) = disk" by simp
  from a w have g: "fsys (fst (processFile ''p/index.html'' False start)) =
      disk\<lparr>contents := (contents disk)(''p/index.html'' \<mapsto> str ''ab'')\<rparr>" by simp
  from a4 w have g4: "fsys (fst (processFile_4 ''p/index.html'' False start)) =
      disk\<lparr>contents := (contents disk)(''p/index.html'' \<mapsto> str ''ab'')\<rparr>" by simp
  from b w r have h: "removalsByType (stats (fst (processFile ''p/index.html'' True start))) =
      [(''Comments Section'', 1)]" by simp
  from d w have l: "console (fst (processFile ''p/index.html'' True start)) =
      [Removed ''p/index.html'' 1]" by simp
  from h s have h': "removalsByType (stats (fst (processFile ''p/index.html'' False start))) =
      [(''Comments Section'', 1)]" by simp
  from l k have l': "console (fst (processFile ''p/index.html'' False start)) =
      [Removed ''p/index.html'' 1]" by simp
  show ?thesis by (intro conjI) (fact c e e4 f g g4 h h' l')+
qed

section \<open>A second pass of the cleanup\<close>

text \<open>
  C4, as stated, fails: deleting a fragment can bring together the two halves of
  another one. On the document \<open>nested\<close> the first pass removes one comments section and
  returns \<open>joined\<close>, in which the second pass finds one more.
\<close>

theorem cleanup_not_idempotent:
  "fst (cleanupContent nested initial_cleanup_stats) = (joined, 1) \<and>
   fst (cleanupContent joined initial_cleanup_stats) = ([], 1)"
  by (simp add: cleanupContent_def cleanupContent_with_def nested_def joined_def
      initial_cleanup_stats_def pats ev)

text \<open>
  C4, amended. For every document, the second pass returns the once-cleaned document
  unchanged exactly when it finds zero removals; every removal it makes deletes at least
  one character; and it finds zero removals whenever no pattern of the table matches the
  once-cleaned document. This holds for both scripts.
\<close>

theorem second_pass:
  "(snd (fst (cleanupContent (fst (fst (cleanupContent d s))) s')) = 0 \<longleftrightarrow>
      fst (fst (cleanupContent (fst (fst (cleanupContent d s))) s')) = fst (fst (cleanupContent d s))) \<and>
   length (fst (fst (cleanupContent (fst (fst (cleanupContent d s))) s'))) +
      snd (fst (cleanupContent (fst (fst (cleanupContent d s))) s'))
      \<le> length (fst (fst (cleanupContent d s))) \<and>
   ((\<forall>(nm, p)\<in>set REMOVAL_PATTERNS. \<not> test p (fst (fst (cleanupContent d s)))) \<longrightarrow>
      fst (cleanupContent (fst (fst (cleanupContent d s))) s') = (fst (fst (cleanupContent d s)), 0)) \<and>
   (snd (fst (cleanupContent_4 (fst (fst (cleanupContent_4 d s))) s')) = 0 \<longleftrightarrow>
      fst (fst (cleanupContent_4 (fst (fst (cleanupContent_4 d s))) s')) = fst (fst (cleanupContent_4 d s))) \<and>
   length (fst (fst (cleanupContent_4 (fst (fst (cleanupContent_4 d s))) s'))) +
      snd (fst (cleanupContent_4 (fst (fst (cleanupContent_4 d s))) s'))
      \<le> length (fst (fst (cleanupContent_4 d s))) \<and>
   ((\<forall>(nm, p)\<in>set REMOVAL_PATTERNS_4. \<not> test p (fst (fst (cleanupContent_4 d s)))) \<longrightarrow>
      fst (cleanupContent_4 (fst (fst (cleanupContent_4 d s))) s') = (fst (fst (cleanupContent_4 d s)), 0))"
  unfolding cleanupContent_def cleanupContent_4_def
  using cleanupContent_with_fixed_iff(1)[OF consuming_table]
    cleanupContent_with_fixed_iff(1)[OF consuming_table_4]
    cleanupContent_with_count_le[OF consuming_table]
    cleanupContent_with_count_le[OF consuming_table_4]
    cleanupContent_with_no_match
  by (intro conjI impI) simp_all

theorem second_pass_witness:
  "fst (cleanupContent page initial_cleanup_stats) = (str ''ab'', 1) \<and>
   fst (cleanupContent_4 page initial_cleanup_stats) = (str ''ab'', 1) \<and>
   list_all (\<lambda>(nm, p). \<not> test p (str ''ab'')) REMOVAL_PATTERNS \<and>
   list_all (\<lambda>(nm, p). \<not> test p (str ''ab'')) REMOVAL_PATTERNS_4 \<and>
   fst (cleanupContent (str ''ab'') initial_cleanup_stats) = (str ''ab'', 0) \<and>
   fst (cleanupContent_4 (str ''ab'') initial_cleanup_stats) = (str ''ab'', 0)"
proof -
  have e: "fst (cleanupContent page initial_cleanup_stats) = (str ''ab'', 1)"
    by (simp add: cleanupContent_def cleanup_page)
  have e4: "fst (cleanupContent_4 page initial_cleanup_stats) = (str ''ab'', 1)"
    by (simp add: cleanupContent_4_def cleanup_page_4)
  note a = no_match_ab
  from a have a4: "list_all (\<lambda>(nm, p). \<not> test p (str ''ab'')) REMOVAL_PATTERNS_4"
    by (simp add: REMOVAL_PATTERNS_def)
  from second_pass[of page initial_cleanup_stats initial_cleanup_stats] e e4 a a4
  have "fst (cleanupContent (str ''ab'') initial_cleanup_stats) = (str ''ab'', 0)"
    and "fst (cleanupContent_4 (str ''ab'') initial_cleanup_stats) = (str ''ab'', 0)"
    by (simp_all add: list_all_iff)
  with e e4 a a4 show ?thesis by simp
qed

section \<open>A failure while processing one file\<close>

text \<open>
  The loops of the two cleanup scripts catch a failure while processing one file, log it
  and go on with the next file: when \<open>processFile\<close> throws, the loop prints the error
  line and continues with the remaining files from the state the exception left; the loop
  over a list is the loop over its first part followed by the loop over the rest,
  whatever failed; every file of the list is counted as scanned; and every file of the
  list that cannot be read has its error line on the console. The loop of the audit has
  no such handler: a file of the list that cannot be read makes the run end with an
  exception before all files are scanned.
\<close>

lemma per_file_failure:
  "(snd (processFile f d st) = Some e \<longrightarrow>
      main_loop d (f # files) st =
        main_loop d files
          ((fst (processFile f d st))
             \<lparr>console := console (fst (processFile f d st)) @ [ErrorProcessing f e]\<rparr>)) \<and>
   (snd (processFile_4 f d st) = Some e \<longrightarrow>
      main_loop_4 d (f # files) st =
        main_loop_4 d files
          ((fst (processFile_4 f d st))
             \<lparr>console := console (fst (processFile_4 f d st)) @ [ErrorProcessing f e]\<rparr>)) \<and>
   main_loop d (xs @ ys) st = main_loop d ys (main_loop d xs st) \<and>
   filesScanned (stats (main_loop d files st)) = filesScanned (stats st) + length files \<and>
   (contents (fsys st) f = None \<longrightarrow> f \<in> set files \<longrightarrow>
      ErrorProcessing f (IOError f) \<in> set (console (main_loop d files st))) \<and>
   main_loop_4 d (xs @ ys) st = main_loop_4 d ys (main_loop_4 d xs st) \<and>
   filesScanned (stats (main_loop_4 d files st)) = filesScanned (stats st) + length files \<and>
   (contents (fsys st) f = None \<longrightarrow> f \<in> set files \<longrightarrow>
      ErrorProcessing f (IOError f) \<in> set (console (main_loop_4 d files st))) \<and>
   (contents fs f = None \<longrightarrow> f \<in> set files \<longrightarrow>
      snd (audit_main minSeverity files fs) \<noteq> None \<and>
      filesScanned (a_stats (fst (audit_main minSeverity files fs))) < length files)"
proof -
  have "contents fs f = None \<longrightarrow> f \<in> set files \<longrightarrow>
      snd (audit_main minSeverity files fs) \<noteq> None \<and>
      filesScanned (a_stats (fst (audit_main minSeverity files fs))) < length files"
    using audit_loop_aborts[of "\<lparr>a_fsys = fs, a_stats = initial_audit_stats\<rparr>" f files
        SEO_CHECKS "minLevel_of minSeverity"]
    by (simp add: audit_main_def initial_audit_stats_def)
  moreover have "snd (processFile_with t f d st) = Some e \<longrightarrow>
      main_loop_with t d (f # files) st =
        main_loop_with t d files
          ((fst (processFile_with t f d st))
             \<lparr>console := console (fst (processFile_with t f d st)) @ [ErrorProcessing f e]\<rparr>)"
    for t
    by (cases "processFile_with t f d st") simp
  ultimately show ?thesis
    unfolding main_loop_def main_loop_4_def processFile_def processFile_4_def
    using main_loop_with_append main_loop_with_filesScanned main_loop_with_logs_unreadable
    by blast
qed

lemma per_file_failure_example:
  "contents (fsys start) ''gone/index.html'' = None \<and>
   snd (processFile ''gone/index.html'' False start) = Some (IOError ''gone/index.html'') \<and>
   main_loop False [''gone/index.html'', ''gone/index.html'', ''p/index.html''] start =
     main_loop False [''gone/index.html'', ''p/index.html'']
       ((fst (processFile ''gone/index.html'' False start))
          \<lparr>console := console (fst (processFile ''gone/index.html'' False start)) @
             [ErrorProcessing ''gone/index.html'' (IOError ''gone/index.html'')]\<rparr>) \<and>
   ErrorProcessing ''gone/index.html'' (IOError ''gone/index.html'')
     \<in> set (console (main_loop False [''gone/index.html'', ''p/index.html''] start)) \<and>
   ErrorProcessing ''gone/index.html'' (IOError ''gone/index.html'')
     \<in> set (console (main_loop_4 False [''gone/index.html'', ''p/index.html''] start)) \<and>
   filesScanned (stats (main_loop False [''gone/index.html'', ''p/index.html''] start)) = 2 \<and>
   snd (audit_main ''info'' [''gone/index.html'', ''p/index.html''] disk) \<noteq> None \<and>
   filesScanned (a_stats (fst (audit_main ''info'' [''gone/index.html'', ''p/index.html''] disk))) < 2"
proof -
  have c: "contents (fsys start) ''gone/index.html'' = None" "contents disk ''gone/index.html'' = None"
    by (simp_all add: start_def disk_def)
  have s: "filesScanned (stats start) = 0"
    by (simp add: start_def initial_cleanup_stats_def)
  note t = per_file_failure[where d = False and xs = "[]" and ys = "[]" and st = start
      and files = "[''gone/index.html'', ''p/index.html'']" and f = "''gone/index.html''"
      and fs = disk and minSeverity = "''info''" and e = "IOError ''gone/index.html''"]
  from t c(1) have a: "ErrorProcessing ''gone/index.html'' (IOError ''gone/index.html'')
     \<in> set (console (main_loop False [''gone/index.html'', ''p/index.html''] start))"
    and a4: "ErrorProcessing ''gone/index.html'' (IOError ''gone/index.html'')
     \<in> set (console (main_loop_4 False [''gone/index.html'', ''p/index.html''] start))"
    by simp_all
  from t s have b: "filesScanned (stats (main_loop False [''gone/index.html'', ''p/index.html''] start)) = 2"
    by simp
  from t c(2) have e: "snd (audit_main ''info'' [''gone/index.html'', ''p/index.html''] disk) \<noteq> None"
    and g: "filesScanned (a_stats (fst (audit_main ''info'' [''gone/index.html'', ''p/index.html''] disk))) < 2"
    by simp_all
  have p: "snd (processFile ''gone/index.html'' False start) = Some (IOError ''gone/index.html'')"
    by (simp add: processFile_def processFile_with_def readFileSync_def start_def disk_def)
  from t p have q: "main_loop False [''gone/index.html'', ''gone/index.html'', ''p/index.html''] start =
     main_loop False [''gone/index.html'', ''p/index.html'']
       ((fst (processFile ''gone/index.html'' False start))
          \<lparr>console := console (fst (processFile ''gone/index.html'' False start)) @
             [ErrorProcessing ''gone/index.html'' (IOError ''gone/index.html'')]\<rparr>)"
    by blast
  from c(1) p q a a4 b e g show ?thesis by blast
qed

text \<open>
  C2. A failure while processing one file is to be caught and logged, and the run is to
  go on with the next file, in the cleanup and in the audit. The cleanup loops do so;
  the loop of the audit does not. Here the first of two files cannot be read and the
  second is a readable page: the audit ends with the exception of the first file, with
  no file counted as scanned and the second file never read.
\<close>

theorem audit_read_failure_aborts:
  "audit_main ''info'' [''gone/index.html'', ''p/index.html''] disk =
     (\<lparr>a_fsys = disk, a_stats = initial_audit_stats\<rparr>, Some (IOError ''gone/index.html''))"
  by (simp add: audit_main_def readFileSync_def disk_def)

section \<open>The counters of the audit\<close>

text \<open>
  C9. After the audit has processed any list of files, whether the run ended normally or
  with an exception, the sum of the counts per rule equals the sum of the counts per
  severity.
\<close>

theorem counts_agree:
  "sum_by_type (a_stats (fst (audit_main minSeverity files fs)))
     = sum_by_severity (a_stats (fst (audit_main minSeverity files fs)))"
  unfolding audit_main_def
  by (rule audit_loop_invariant)
     (simp add: sum_by_type_def sum_by_severity_def initial_audit_stats_def)

section \<open>The severity filter\<close>

text \<open>
  C7. For every threshold and every list of files: every recorded issue has a severity
  at or above the threshold; the count of every severity below the threshold is zero;
  no rule of the table below the threshold has an entry in the counts per rule; and a
  file all of whose issues are below the threshold is counted as scanned but adds no
  entry to the files with issues and no count. With the threshold \<open>error\<close> this is the
  case of a page whose only issues are warnings.
\<close>

theorem severity_filter:
  "(\<forall>fi\<in>set (fileIssues (a_stats (fst (audit_main minSeverity files fs)))).
      \<forall>i\<in>set (fi_issues fi). minLevel_of minSeverity \<le> severityLevels (issue_severity i)) \<and>
   (severityLevels s < minLevel_of minSeverity \<longrightarrow>
      issuesBySeverity (a_stats (fst (audit_main minSeverity files fs))) s = 0) \<and>
   (c \<in> set SEO_CHECKS \<longrightarrow> severityLevels (severity c) < minLevel_of minSeverity \<longrightarrow>
      map_of (issuesByType (a_stats (fst (audit_main minSeverity files fs)))) (name c) = None) \<and>
   (contents fs f = Some content \<longrightarrow>
    (\<forall>c\<in>set SEO_CHECKS. check c content (parseFrontmatter content) \<longrightarrow>
         severityLevels (severity c) < minLevel_of minSeverity) \<longrightarrow>
      audit_main minSeverity [f] fs =
        (\<lparr>a_fsys = fs, a_stats = initial_audit_stats\<lparr>filesScanned := 1\<rparr>\<rparr>, None))"
proof -
  let ?lvl = "minLevel_of minSeverity"
  let ?st0 = "\<lparr>a_fsys = fs, a_stats = initial_audit_stats\<rparr>"
  have "suppressed SEO_CHECKS ?lvl (a_stats ?st0)"
    by (simp add: suppressed_def initial_audit_stats_def)
  from audit_loop_suppressed[OF this, of files]
  have sup: "suppressed SEO_CHECKS ?lvl (a_stats (fst (audit_main minSeverity files fs)))"
    by (simp add: audit_main_def)
  have a: "\<forall>fi\<in>set (fileIssues (a_stats (fst (audit_main minSeverity files fs)))).
      \<forall>i\<in>set (fi_issues fi). ?lvl \<le> severityLevels (issue_severity i)"
    using sup by (simp add: suppressed_def)
  have b: "severityLevels s < ?lvl \<longrightarrow>
      issuesBySeverity (a_stats (fst (audit_main minSeverity files fs))) s = 0"
    using sup by (simp add: suppressed_def)
  have c: "c \<in> set SEO_CHECKS \<longrightarrow> severityLevels (severity c) < ?lvl \<longrightarrow>
      map_of (issuesByType (a_stats (fst (audit_main minSeverity files fs)))) (name c) = None"
  proof (intro impI)
    assume m: "c \<in> set SEO_CHECKS" and l: "severityLevels (severity c) < ?lvl"
    have "\<forall>c'\<in>set SEO_CHECKS. name c' = name c \<longrightarrow> severityLevels (severity c') < ?lvl"
      using names_distinct[OF m] l by auto
    with sup show "map_of (issuesByType (a_stats (fst (audit_main minSeverity files fs)))) (name c) = None"
      unfolding suppressed_def by blast
  qed
  have d: "contents fs f = Some content \<longrightarrow>
    (\<forall>c\<in>set SEO_CHECKS. check c content (parseFrontmatter content) \<longrightarrow>
         severityLevels (severity c) < ?lvl) \<longrightarrow>
      audit_main minSeverity [f] fs =
        (\<lparr>a_fsys = fs, a_stats = initial_audit_stats\<lparr>filesScanned := 1\<rparr>\<rparr>, None)"
  proof (intro impI)
    assume r: "contents fs f = Some content"
      and n: "\<forall>c\<in>set SEO_CHECKS. check c content (parseFrontmatter content) \<longrightarrow>
         severityLevels (severity c) < ?lvl"
    from r have "contents (a_fsys ?st0) f = Some content" by simp
    from audit_loop_single_clean[OF this n]
    show "audit_main minSeverity [f] fs =
        (\<lparr>a_fsys = fs, a_stats = initial_audit_stats\<lparr>filesScanned := 1\<rparr>\<rparr>, None)"
      by (simp add: audit_main_def initial_audit_stats_def)
  qed
  from a b c d show ?thesis by blast
qed

theorem severity_filter_witness:
  "contents disk_w ''w/index.html'' = Some docw \<and>
   map (\<lambda>c. check c docw (parseFrontmatter docw)) SEO_CHECKS =
     [False, False, False, False, False, True, False, True, False, False, False] \<and>
   fileIssues (a_stats (fst (audit_main ''info'' [''w/index.html''] disk_w))) =
     [FileIssues ''w/index.html'' (str ''T'')
        [Issue ''Description Too Short'' Warning (Some (str ''1 chars (recommended: 120-160)'')),
         Issue ''Missing OG Image'' Warning None]] \<and>
   audit_main ''error'' [''w/index.html''] disk_w =
     (\<lparr>a_fsys = disk_w, a_stats = initial_audit_stats\<lparr>filesScanned := 1\<rparr>\<rparr>, None) \<and>
   issuesBySeverity (a_stats (fst (audit_main ''error'' [''w/index.html''] disk_w))) Warning = 0 \<and>
   map_of (issuesByType (a_stats (fst (audit_main ''error'' [''w/index.html''] disk_w))))
     ''Missing OG Image'' = None"
proof -
  have r: "contents disk_w ''w/index.html'' = Some docw" by (simp add: disk_w_def)
  have l: "minLevel_of ''error'' = 3" by (simp add: minLevel_of_def)
  have n: "\<forall>c\<in>set SEO_CHECKS. check c docw (parseFrontmatter docw) \<longrightarrow>
         severityLevels (severity c) < minLevel_of ''error''"
    using checks_docw unfolding l by (simp add: SEO_CHECKS_def)
  have m: "og_image_check \<in> set SEO_CHECKS" by (simp add: SEO_CHECKS_def og_image_check_def)
  have g: "severityLevels Warning < minLevel_of ''error''"
    "severityLevels (severity og_image_check) < minLevel_of ''error''"
    "name og_image_check = ''Missing OG Image''"
    unfolding l by (simp_all add: og_image_check_def)
  note t = severity_filter[of "''error''" "[''w/index.html'']" disk_w Warning og_image_check
      "''w/index.html''" docw]
  from t r n have a: "audit_main ''error'' [''w/index.html''] disk_w =
     (\<lparr>a_fsys = disk_w, a_stats = initial_audit_stats\<lparr>filesScanned := 1\<rparr>\<rparr>, None)"
    by blast
  from t g(1) have b:
    "issuesBySeverity (a_stats (fst (audit_main ''error'' [''w/index.html''] disk_w))) Warning = 0"
    by blast
  from t m g(2) have "map_of (issuesByType (a_stats (fst (audit_main ''error'' [''w/index.html''] disk_w))))
     (name og_image_check) = None"
    by blast
  with g(3) have c: "map_of (issuesByType (a_stats (fst (audit_main ''error'' [''w/index.html''] disk_w))))
     ''Missing OG Image'' = None" by simp
  from r checks_docw unfiltered_docw a b c show ?thesis by blast
qed

section \<open>The detail of a finding\<close>



section \<open>The rule on truncated descriptions\<close>

text \<open>
  C1, as stated, fails in its first example: that description has 40 characters, not more
  than 50, so the rule does not fire for it.
\<close>

theorem short_example_does_not_fire:
  "length example_thing = 40 \<and>
   \<not> truncated_description [] [str ''description'' \<mapsto> example_thing]"
  by (simp add: example_thing_def truncated_description_def falsy_def trim_def str_def
      is_space_def)

text \<open>
  C1, amended. The fifth check of the table is named Truncated Description and has the
  severity warning. For every document whose front matter has a description, it fires
  exactly when the trimmed description is longer than 50 and ends with an ellipsis, or
  ends with a word fragment of at most three characters, or does not end with \<open>.\<close>,
  \<open>!\<close>, \<open>?\<close> or a double quote. It fires for neither of the two descriptions that the
  specification names: both are no longer than 50.
\<close>

theorem truncated_description_rule:
  "SEO_CHECKS ! 4 = \<lparr>name = ''Truncated Description'', check = truncated_description,
      severity = Warning, details = Some truncated_description_details\<rparr> \<and>
   (fm (str ''description'') = Some d \<longrightarrow>
      (truncated_description content fm \<longleftrightarrow> spec_truncated d)) \<and>
   \<not> truncated_description content [str ''description'' \<mapsto> example_thing] \<and>
   \<not> truncated_description content [str ''description'' \<mapsto> example_things]"
  using truncated_entry truncated_iff[of fm d content] examples_not_truncated[of content]
  by blast

theorem truncated_description_rule_witness:
  "[str ''description'' \<mapsto> example_cut] (str ''description'') = Some example_cut \<and>
   length example_cut = 59 \<and>
   truncated_description [] [str ''description'' \<mapsto> example_cut] \<and>
   spec_truncated example_cut"
proof -
  have a: "[str ''description'' \<mapsto> example_cut] (str ''description'') = Some example_cut"
    by simp
  have l: "length example_cut = 59" by (simp add: example_cut_def str_def)
  from truncated_description_rule[of "[str ''description'' \<mapsto> example_cut]" example_cut "[]"]
    a example_cut_fires
  have "spec_truncated example_cut" by blast
  with a l example_cut_fires show ?thesis by blast
qed

section \<open>The metadata extractor\<close>

text \<open>
  C5. \<open>parseFrontmatter\<close> maps the page of the example, and every document that begins
  with it, to the map with \<open>title\<close> bound to \<open>Hello\<close> and \<open>description\<close> bound to
  \<open>World\<close>; and it maps every document that does not start with the three characters
  of the marker to the empty map. (It is a total function: it has no failure.)
\<close>

theorem parseFrontmatter_example:
  "parseFrontmatter doc_hello =
     [str ''title'' \<mapsto> str ''Hello'', str ''description'' \<mapsto> str ''World''] \<and>
   parseFrontmatter (doc_hello @ rest) =
     [str ''title'' \<mapsto> str ''Hello'', str ''description'' \<mapsto> str ''World''] \<and>
   (take 3 content \<noteq> str ''---'' \<longrightarrow> parseFrontmatter content = Map.empty)"
proof -
  have "take 3 content \<noteq> str ''---'' \<longrightarrow> parseFrontmatter content = Map.empty"
    using no_marker_no_header[of content] by (simp add: parseFrontmatter_def)
  with fm_doc_hello fm_doc_hello_any[of rest] show ?thesis by blast
qed

theorem parseFrontmatter_example_witness:
  "take 3 (str ''<h1>Hi</h1>'') \<noteq> str ''---'' \<and>
   parseFrontmatter (str ''<h1>Hi</h1>'') = Map.empty"
proof -
  have a: "take 3 (str ''<h1>Hi</h1>'') \<noteq> str ''---''" by (simp add: str_def)
  with parseFrontmatter_example[of "[]" "str ''<h1>Hi</h1>''"] show ?thesis by blast
qed

text \<open>
  C6, as stated, fails in its last part: the closing marker is matched as a line break
  followed by \<open>---\<close>, whatever follows. In \<open>doc_split\<close> the line \<open>---x\<close> ends the
  block, and the description on the next line is not read.
\<close>

theorem marker_prefix_ends_block:
  "header_block doc_split = Some (str ''title: A'') \<and>
   parseFrontmatter doc_split = [str ''title'' \<mapsto> str ''A'']"
  by (simp add: doc_split_def fm_ev audit_pats ev)

text \<open>
  C6, amended. A header block is recognised exactly when the text, with every \<open>\r\n\<close>
  replaced by \<open>\n\<close>, starts with \<open>---\<close> and a line break and has, later, a line break
  followed by \<open>---\<close>; the block is the text between that first line and the first such
  place, whether or not more characters follow the marker on that line. The front
  matter is parsed from the lines of that block, and is empty without one.
\<close>

theorem header_block_extent:
  "(header_block content = Some y \<longleftrightarrow>
     (\<exists>e. normalizedContent content = str ''---\<newline>'' @ y @ str ''\<newline>---'' @ e \<and>
        (\<forall>y' e'. normalizedContent content = str ''---\<newline>'' @ y' @ str ''\<newline>---'' @ e'
           \<longrightarrow> length y \<le> length y'))) \<and>
   parseFrontmatter content =
     (case header_block content of
        None \<Rightarrow> Map.empty
      | Some yaml \<Rightarrow> parse_lines (split_on 10 yaml) Map.empty)"
  using header_block_iff[of content y] by (simp add: parseFrontmatter_def)

theorem header_block_extent_witness:
  "header_block doc_split = Some (str ''title: A'') \<and>
   (\<exists>e. normalizedContent doc_split = str ''---\<newline>'' @ str ''title: A'' @ str ''\<newline>---'' @ e) \<and>
   normalizedContent doc_split =
     str ''---\<newline>'' @ str ''title: A\<newline>---x\<newline>description: B'' @ str ''\<newline>---'' @ str ''\<newline>'' \<and>
   length (str ''title: A'') \<le> length (str ''title: A\<newline>---x\<newline>description: B'')"
proof -
  from header_block_extent[of doc_split "str ''title: A''"] header_doc_split
  obtain e where e: "normalizedContent doc_split = str ''---\<newline>'' @ str ''title: A'' @ str ''\<newline>---'' @ e"
    and mn: "\<forall>y' e'. normalizedContent doc_split = str ''---\<newline>'' @ y' @ str ''\<newline>---'' @ e'
           \<longrightarrow> length (str ''title: A'') \<le> length y'"
    by blast
  from mn normalize_doc_split
  have "length (str ''title: A'') \<le> length (str ''title: A\<newline>---x\<newline>description: B'')"
    by blast
  with header_doc_split e normalize_doc_split show ?thesis by blast
qed

end
